theory Spec2Isabelle
  imports Main "HOL-Library.List_Lexorder" "HOL-Library.Product_Lexorder" "HOL-Library.Multiset"
    "HOL-Library.Word"
begin

section \<open>Strings\<close>

text \<open>
  A Python \<open>str\<close> is a sequence of Unicode code points; a code point is a natural number.
  \<open>u\<close> turns an ASCII literal into such a string.
\<close>

type_synonym ustr = "nat list"

definition u :: "string \<Rightarrow> ustr" where
  "u s = map of_char s"

text \<open>
  The Unicode character database is not part of the repository. What \<open>normalize_str\<close>
  needs of it outside ASCII is a parameter; on ASCII the behaviour of \<open>str.lower\<close>,
  \<open>str.strip\<close>, \<open>unicodedata.normalize('NFD', _)\<close> and \<open>unicodedata.category\<close> is fixed
  and written out.
\<close>

record unicode_db =
  u_lower :: "ustr \<Rightarrow> ustr"   \<comment> \<open>\<open>str.lower\<close> on a string that is not pure ASCII\<close>
  u_space :: "nat \<Rightarrow> bool"    \<comment> \<open>\<open>str.isspace\<close> of a code point above 127\<close>
  u_nfd :: "ustr \<Rightarrow> ustr"     \<comment> \<open>NFD of a string that is not pure ASCII\<close>
  u_mn :: "nat \<Rightarrow> bool"       \<comment> \<open>category \<open>Mn\<close> of a code point above 127\<close>

definition is_ascii :: "ustr \<Rightarrow> bool" where
  "is_ascii s = (filter (\<lambda>c. 128 \<le> c) s = [])"

definition ascii_lower :: "nat \<Rightarrow> nat" where
  "ascii_lower c = (if 65 \<le> c \<and> c \<le> 90 then c + 32 else c)"

definition py_lower :: "unicode_db \<Rightarrow> ustr \<Rightarrow> ustr" where
  "py_lower db s = (if is_ascii s then map ascii_lower s else u_lower db s)"

definition is_space :: "unicode_db \<Rightarrow> nat \<Rightarrow> bool" where
  "is_space db c =
     (if c < 128 then (9 \<le> c \<and> c \<le> 13) \<or> (28 \<le> c \<and> c \<le> 32) else u_space db c)"

definition py_strip :: "unicode_db \<Rightarrow> ustr \<Rightarrow> ustr" where
  "py_strip db s = rev (dropWhile (is_space db) (rev (dropWhile (is_space db) s)))"

text \<open>
  \<open>re.sub(r'\(.*?\)', '', s)\<close>: at an opening character the match runs to the nearest
  closing character, provided no newline (code point 10, which \<open>.\<close> does not match) comes
  first; otherwise the opening character is kept and the scan moves on. \<open>close_dist\<close>
  counts the characters of the match after the opening one; \<open>re_sub_group\<close> carries the
  number of characters still to drop.
\<close>

fun close_dist :: "nat \<Rightarrow> ustr \<Rightarrow> nat option" where
  "close_dist cl [] = None"
| "close_dist cl (c # cs) =
     (if c = cl then Some 1
      else if c = 10 then None
      else map_option Suc (close_dist cl cs))"

fun re_sub_group :: "nat \<Rightarrow> nat \<Rightarrow> nat \<Rightarrow> ustr \<Rightarrow> ustr" where
  "re_sub_group opn cl k [] = []"
| "re_sub_group opn cl (Suc k) (c # cs) = re_sub_group opn cl k cs"
| "re_sub_group opn cl 0 (c # cs) =
     (if c = opn then
        (case close_dist cl cs of
           Some n \<Rightarrow> re_sub_group opn cl n cs
         | None \<Rightarrow> c # re_sub_group opn cl 0 cs)
      else c # re_sub_group opn cl 0 cs)"

definition py_nfd :: "unicode_db \<Rightarrow> ustr \<Rightarrow> ustr" where
  "py_nfd db s = (if is_ascii s then s else u_nfd db s)"

definition is_mn :: "unicode_db \<Rightarrow> nat \<Rightarrow> bool" where
  "is_mn db c = (if c < 128 then False else u_mn db c)"

definition is_alnum :: "nat \<Rightarrow> bool" where
  "is_alnum c = ((97 \<le> c \<and> c \<le> 122) \<or> (48 \<le> c \<and> c \<le> 57))"

definition normalize_str :: "unicode_db \<Rightarrow> ustr \<Rightarrow> ustr" where
  "normalize_str db s =
     (if s = [] then []
      else
        let s1 = py_strip db (py_lower db s);
            s2 = re_sub_group 40 41 0 s1;
            s3 = re_sub_group 91 93 0 s2;
            s4 = filter (\<lambda>c. \<not> is_mn db c) (py_nfd db s3)
        in filter is_alnum s4)"

text \<open>A database for evaluating on ASCII inputs, where it is never consulted.\<close>

definition ascii_db :: unicode_db where
  "ascii_db = \<lparr>u_lower = (\<lambda>s. s), u_space = (\<lambda>c. False), u_nfd = (\<lambda>s. s), u_mn = (\<lambda>c. False)\<rparr>"

section \<open>Records of the catalogue (models.py)\<close>

record Artist =
  a_id :: int
  a_name :: ustr
  a_picture :: "ustr option"
  a_type :: "ustr option"

record Album =
  al_id :: int
  al_title :: ustr
  al_cover :: "ustr option"
  al_vibrantColor :: "ustr option"
  al_artist :: "Artist option"

text \<open>
  \<open>TrackSearchItem\<close> (and \<open>TrackInfo\<close>, which adds nothing). The fields \<open>artist\<close> and
  \<open>album\<close> are required by the class, yet the code tests them for presence at each use
  (\<open>if t.artist\<close>, \<open>t.album.title if t.album else ""\<close>); they are options here so that
  every such test is a branch of the model.
\<close>

record TrackSearchItem =
  t_id :: int
  t_title :: ustr
  t_duration :: int
  t_popularity :: "int option"
  t_artist :: "Artist option"
  t_artists :: "Artist list"
  t_album :: "Album option"
  t_explicit :: "bool option"
  t_audioQuality :: "ustr option"
  t_version :: "ustr option"
  t_isrc :: "ustr option"
  t_copyright :: "ustr option"
  t_bpm :: "int option"
  t_key :: "ustr option"
  t_keyScale :: "ustr option"
  t_releaseDate :: "ustr option"
  t_trackNumber :: "int option"
  t_volumeNumber :: "int option"
  t_streamStartDate :: "ustr option"

section \<open>Dictionaries in insertion order\<close>

text \<open>
  A Python \<open>dict\<close> keeps its keys in the order of their first insertion; assigning to a key
  that is present replaces the value where it stands.
\<close>

type_synonym ('k, 'v) dict = "('k \<times> 'v) list"

fun dict_set :: "'k \<Rightarrow> 'v \<Rightarrow> ('k, 'v) dict \<Rightarrow> ('k, 'v) dict" where
  "dict_set k v [] = [(k, v)]"
| "dict_set k v ((k', v') # d) =
     (if k' = k then (k, v) # d else (k', v') # dict_set k v d)"

definition dict_values :: "('k, 'v) dict \<Rightarrow> 'v list" where
  "dict_values d = map snd d"

section \<open>Deduplication by audio quality (cli.py, deduplicate_tracks)\<close>

definition album_title_or_empty :: "TrackSearchItem \<Rightarrow> ustr" where
  "album_title_or_empty t = (case t_album t of Some al \<Rightarrow> al_title al | None \<Rightarrow> [])"

text \<open>\<open>qualities.get(q, 0)\<close>: the rank of a quality tag, 0 for an absent or unknown one.\<close>

definition qualities :: "ustr option \<Rightarrow> nat" where
  "qualities q =
     (if q = Some (u ''LOW'') then 1
      else if q = Some (u ''HIGH'') then 2
      else if q = Some (u ''LOSSLESS'') then 3
      else if q = Some (u ''HI_RES_LOSSLESS'') then 4
      else 0)"

type_synonym track_key = "ustr \<times> ustr \<times> bool option"

definition track_key :: "unicode_db \<Rightarrow> TrackSearchItem \<Rightarrow> track_key" where
  "track_key db t =
     (normalize_str db (t_title t), normalize_str db (album_title_or_empty t), t_explicit t)"

definition dedup_step ::
  "unicode_db \<Rightarrow> (track_key, TrackSearchItem) dict \<Rightarrow> TrackSearchItem
     \<Rightarrow> (track_key, TrackSearchItem) dict" where
  "dedup_step db unique_tracks t =
     (let key = track_key db t in
      case map_of unique_tracks key of
        None \<Rightarrow> dict_set key t unique_tracks
      | Some cur \<Rightarrow>
          (let curr_q = qualities (t_audioQuality cur);
               new_q = qualities (t_audioQuality t)
           in if new_q > curr_q then dict_set key t unique_tracks else unique_tracks))"

definition deduplicate_tracks :: "unicode_db \<Rightarrow> TrackSearchItem list \<Rightarrow> TrackSearchItem list" where
  "deduplicate_tracks db tracks_list = dict_values (foldl (dedup_step db) [] tracks_list)"

text \<open>The distinct elements of a list, in the order of their first occurrence.\<close>

definition first_occurrences :: "'a list \<Rightarrow> 'a list" where
  "first_occurrences xs = rev (remdups (rev xs))"

text \<open>
  \<open>first_best db ts r\<close>: among the records of \<open>ts\<close> that share the key of \<open>r\<close>, \<open>r\<close> is
  the first one of maximal quality rank: every record of the group before it ranks strictly
  lower, every record after it ranks at most as high.
\<close>

definition first_best :: "unicode_db \<Rightarrow> TrackSearchItem list \<Rightarrow> TrackSearchItem \<Rightarrow> bool" where
  "first_best db ts r =
     (\<exists>pre post. filter (\<lambda>t. track_key db t = track_key db r) ts = pre @ r # post
        \<and> (\<forall>t\<in>set pre. qualities (t_audioQuality t) < qualities (t_audioQuality r))
        \<and> (\<forall>t\<in>set post. qualities (t_audioQuality t) \<le> qualities (t_audioQuality r)))"

text \<open>The loop invariant of \<open>deduplicate_tracks\<close> after the records \<open>ts\<close>.\<close>

definition dedup_inv ::
  "unicode_db \<Rightarrow> TrackSearchItem list \<Rightarrow> (track_key, TrackSearchItem) dict \<Rightarrow> bool" where
  "dedup_inv db ts d =
     (map fst d = first_occurrences (map (track_key db) ts)
      \<and> (\<forall>k r. map_of d k = Some r \<longrightarrow> track_key db r = k \<and> first_best db ts r))"

section \<open>Authentication of a discography (cli.py, _handle_artist_search)\<close>

text \<open>
  The artist-identity filter, lines 278 to 286. \<open>track_artists = t.artists or []\<close> binds the
  local name to the very list the record holds when that list is not empty, and to a new
  empty list otherwise; \<open>track_artists.append(t.artist)\<close> then writes to whichever list the
  name is bound to. \<open>list_var\<close> records the binding, and \<open>list_append\<close> returns the record
  as the append leaves it.
\<close>

datatype list_var = Alias | Fresh "Artist list"

definition list_read :: "list_var \<Rightarrow> TrackSearchItem \<Rightarrow> Artist list" where
  "list_read lv t = (case lv of Alias \<Rightarrow> t_artists t | Fresh xs \<Rightarrow> xs)"

definition list_append :: "list_var \<Rightarrow> Artist \<Rightarrow> TrackSearchItem \<Rightarrow> list_var \<times> TrackSearchItem" where
  "list_append lv a t =
     (case lv of
        Alias \<Rightarrow> (Alias, t\<lparr>t_artists := t_artists t @ [a]\<rparr>)
      | Fresh xs \<Rightarrow> (Fresh (xs @ [a]), t))"

definition artist_matches :: "unicode_db \<Rightarrow> Artist \<Rightarrow> Artist \<Rightarrow> bool" where
  "artist_matches db artist a =
     (a_name a \<noteq> [] \<and> a_id a \<noteq> 0 \<and> a_id a = a_id artist
      \<and> py_strip db (py_lower db (a_name a)) = py_strip db (py_lower db (a_name artist)))"

text \<open>One turn of the loop: the record as the turn leaves it, and whether it is kept.\<close>

definition strict_step :: "unicode_db \<Rightarrow> Artist \<Rightarrow> TrackSearchItem \<Rightarrow> TrackSearchItem \<times> bool" where
  "strict_step db artist t =
     (let track_artists = (if t_artists t \<noteq> [] then Alias else Fresh []);
          (track_artists', t') =
             (case t_artist t of
                Some a \<Rightarrow> list_append track_artists a t
              | None \<Rightarrow> (track_artists, t))
      in (t', list_ex (artist_matches db artist) (list_read track_artists' t')))"

text \<open>
  The whole loop over \<open>artist_info.tracks\<close>: the records as the loop leaves them and
  \<open>strict_tracks\<close>, which holds the kept records themselves.
\<close>

fun strict_filter ::
  "unicode_db \<Rightarrow> Artist \<Rightarrow> TrackSearchItem list \<Rightarrow> TrackSearchItem list \<times> TrackSearchItem list" where
  "strict_filter db artist [] = ([], [])"
| "strict_filter db artist (t # ts) =
     (let (t', keep) = strict_step db artist t;
          (ts', strict_tracks) = strict_filter db artist ts
      in (t' # ts', if keep then t' # strict_tracks else strict_tracks))"

text \<open>\<open>unique_tracks = {t.id: t for t in unique_tracks_list}\<close>.\<close>

definition unique_tracks :: "TrackSearchItem list \<Rightarrow> (int, TrackSearchItem) dict" where
  "unique_tracks unique_tracks_list = foldl (\<lambda>d t. dict_set (t_id t) t d) [] unique_tracks_list"

text \<open>\<open>t.popularity or 0\<close>.\<close>

definition popularity_or_0 :: "TrackSearchItem \<Rightarrow> int" where
  "popularity_or_0 t = (case t_popularity t of Some p \<Rightarrow> p | None \<Rightarrow> 0)"

definition n_album :: "unicode_db \<Rightarrow> TrackSearchItem \<Rightarrow> ustr" where
  "n_album db t = normalize_str db (album_title_or_empty t)"

definition n_track :: "unicode_db \<Rightarrow> TrackSearchItem \<Rightarrow> ustr" where
  "n_track db t = normalize_str db (t_title t)"

text \<open>Lines 293 to 300: the ids of the albums that hold a track matched by the reference sets.\<close>

definition verified_step ::
  "unicode_db \<Rightarrow> ustr set \<Rightarrow> ustr set \<Rightarrow> int set \<Rightarrow> TrackSearchItem \<Rightarrow> int set" where
  "verified_step db itunes_albums itunes_tracks ids t =
     (if n_album db t \<in> itunes_albums \<or> n_track db t \<in> itunes_tracks then
        (case t_album t of Some al \<Rightarrow> insert (al_id al) ids | None \<Rightarrow> ids)
      else ids)"

definition verified_album_ids ::
  "unicode_db \<Rightarrow> ustr set \<Rightarrow> ustr set \<Rightarrow> TrackSearchItem list \<Rightarrow> int set" where
  "verified_album_ids db itunes_albums itunes_tracks ts =
     (if itunes_albums \<noteq> {} \<or> itunes_tracks \<noteq> {} then
        foldl (verified_step db itunes_albums itunes_tracks) {} ts
      else {})"

text \<open>Lines 306 to 316: the value of \<open>is_verified\<close> for one track.\<close>

definition is_verified ::
  "unicode_db \<Rightarrow> ustr set \<Rightarrow> ustr set \<Rightarrow> int set \<Rightarrow> TrackSearchItem \<Rightarrow> bool" where
  "is_verified db itunes_albums itunes_tracks ids t =
     (if itunes_albums = {} \<and> itunes_tracks = {} then
        (if popularity_or_0 t \<ge> 5 then True else False)
      else if (case t_album t of Some al \<Rightarrow> al_id al \<in> ids | None \<Rightarrow> False) then True
      else if n_track db t \<in> itunes_tracks then True
      else if n_album db t \<in> itunes_albums then True
      else if (case t_popularity t of Some p \<Rightarrow> p \<noteq> 0 \<and> p \<ge> 50 | None \<Rightarrow> False) then True
      else False)"

text \<open>
  Lines 302 to 321: the loop that fills \<open>final_tracks\<close> and \<open>discarded_albums\<close>.
\<close>

definition classify_step ::
  "unicode_db \<Rightarrow> ustr set \<Rightarrow> ustr set \<Rightarrow> int set \<Rightarrow> TrackSearchItem list \<times> ustr set
     \<Rightarrow> TrackSearchItem \<Rightarrow> TrackSearchItem list \<times> ustr set" where
  "classify_step db itunes_albums itunes_tracks ids st t =
     (let (final_tracks, discarded_albums) = st in
      if is_verified db itunes_albums itunes_tracks ids t then
        (final_tracks @ [t], discarded_albums)
      else
        (final_tracks,
         case t_album t of Some al \<Rightarrow> insert (al_title al) discarded_albums
                          | None \<Rightarrow> discarded_albums))"

definition classify ::
  "unicode_db \<Rightarrow> ustr set \<Rightarrow> ustr set \<Rightarrow> int set \<Rightarrow> TrackSearchItem list
     \<Rightarrow> TrackSearchItem list \<times> ustr set" where
  "classify db itunes_albums itunes_tracks ids ts =
     foldl (classify_step db itunes_albums itunes_tracks ids) ([], {}) ts"

text \<open>Lines 326 to 331: the highest popularity per normalised album title.\<close>

definition album_pops_step :: "unicode_db \<Rightarrow> (ustr, int) dict \<Rightarrow> TrackSearchItem \<Rightarrow> (ustr, int) dict" where
  "album_pops_step db album_pops t =
     (let al_key = n_album db t; pop = popularity_or_0 t in
      case map_of album_pops al_key of
        None \<Rightarrow> dict_set al_key pop album_pops
      | Some p \<Rightarrow> if pop > p then dict_set al_key pop album_pops else album_pops)"

definition album_pops :: "unicode_db \<Rightarrow> TrackSearchItem list \<Rightarrow> (ustr, int) dict" where
  "album_pops db final_tracks = foldl (album_pops_step db) [] final_tracks"

text \<open>\<open>d.get(k, 0)\<close>.\<close>

definition dict_get_0 :: "('k, int) dict \<Rightarrow> 'k \<Rightarrow> int" where
  "dict_get_0 d k = (case map_of d k of Some v \<Rightarrow> v | None \<Rightarrow> 0)"

text \<open>
  Lines 333 to 337. \<open>sorted\<close> is stable and compares the key tuples lexicographically,
  strings by code point: \<open>sort_key\<close> on the lexicographic orders of products and lists.
\<close>

definition track_sort_key :: "unicode_db \<Rightarrow> (ustr, int) dict \<Rightarrow> TrackSearchItem \<Rightarrow> int \<times> ustr \<times> int" where
  "track_sort_key db pops x =
     (- dict_get_0 pops (n_album db x),
      n_album db x,
      (case t_trackNumber x of Some n \<Rightarrow> n | None \<Rightarrow> 0))"

definition sorted_tracks :: "unicode_db \<Rightarrow> TrackSearchItem list \<Rightarrow> TrackSearchItem list" where
  "sorted_tracks db final_tracks =
     sort_key (track_sort_key db (album_pops db final_tracks)) final_tracks"

text \<open>
  Lines 288 to 337 as one function of \<open>strict_tracks\<close> and the two reference sets that
  \<open>get_itunes_fingerprint\<close> returned.
\<close>

definition unique_values :: "unicode_db \<Rightarrow> TrackSearchItem list \<Rightarrow> TrackSearchItem list" where
  "unique_values db strict_tracks = dict_values (unique_tracks (deduplicate_tracks db strict_tracks))"

definition final_tracks ::
  "unicode_db \<Rightarrow> ustr set \<Rightarrow> ustr set \<Rightarrow> TrackSearchItem list \<Rightarrow> TrackSearchItem list" where
  "final_tracks db itunes_albums itunes_tracks strict_tracks =
     (let uts = unique_values db strict_tracks;
          ids = verified_album_ids db itunes_albums itunes_tracks uts;
          fin = fst (classify db itunes_albums itunes_tracks ids uts)
      in if fin = [] then uts else fin)"

definition reconcile ::
  "unicode_db \<Rightarrow> ustr set \<Rightarrow> ustr set \<Rightarrow> TrackSearchItem list \<Rightarrow> TrackSearchItem list" where
  "reconcile db itunes_albums itunes_tracks strict_tracks =
     sorted_tracks db (final_tracks db itunes_albums itunes_tracks strict_tracks)"

text \<open>
  The claimed classification, in the claim's words: with no reference data, popularity at
  least 5; otherwise membership of the album id in the verified ids, or of the normalised
  track title in the reference tracks, or of the normalised album title in the reference
  albums, or popularity at least 50.
\<close>

definition verified_spec ::
  "unicode_db \<Rightarrow> ustr set \<Rightarrow> ustr set \<Rightarrow> int set \<Rightarrow> TrackSearchItem \<Rightarrow> bool" where
  "verified_spec db ref_albums ref_tracks ids t =
     (if ref_albums = {} \<and> ref_tracks = {} then 5 \<le> popularity_or_0 t
      else (case t_album t of Some al \<Rightarrow> al_id al \<in> ids | None \<Rightarrow> False)
           \<or> n_track db t \<in> ref_tracks
           \<or> n_album db t \<in> ref_albums
           \<or> 50 \<le> popularity_or_0 t)"

text \<open>
  The claimed sort key: the highest popularity among the tracks of \<open>ts\<close> on the same
  normalised album, negated; the normalised album title; the track number or 0.
\<close>

definition album_max :: "unicode_db \<Rightarrow> TrackSearchItem list \<Rightarrow> ustr \<Rightarrow> int" where
  "album_max db ts k = Max (set (map popularity_or_0 (filter (\<lambda>x. n_album db x = k) ts)))"

definition track_number_or_0 :: "TrackSearchItem \<Rightarrow> int" where
  "track_number_or_0 x = (case t_trackNumber x of Some n \<Rightarrow> n | None \<Rightarrow> 0)"

definition sort_key_spec :: "unicode_db \<Rightarrow> TrackSearchItem list \<Rightarrow> TrackSearchItem \<Rightarrow> int \<times> ustr \<times> int" where
  "sort_key_spec db ts x = (- album_max db ts (n_album db x), n_album db x, track_number_or_0 x)"

text \<open>The popularities found in \<open>ts\<close> on the album with normalised title \<open>k\<close>.\<close>

definition album_group :: "unicode_db \<Rightarrow> TrackSearchItem list \<Rightarrow> ustr \<Rightarrow> int set" where
  "album_group db ts k = set (map popularity_or_0 (filter (\<lambda>x. n_album db x = k) ts))"

section \<open>The downloader (downloader.py)\<close>

subsection \<open>Strings, paths and files\<close>

text \<open>\<open>str(n)\<close> for an integer: its decimal digits, with a minus sign when negative.\<close>

function str_nat :: "nat \<Rightarrow> ustr" where
  "str_nat n = (if n < 10 then [48 + n] else str_nat (n div 10) @ [48 + n mod 10])"
  by pat_completeness auto
termination
  by (relation "measure id") auto

declare str_nat.simps [simp del]

definition str_int :: "int \<Rightarrow> ustr" where
  "str_int i = (if i < 0 then 45 # str_nat (nat (- i)) else str_nat (nat i))"

text \<open>
  \<open>s.replace(pat, rep)\<close> for a pattern that is not empty: the occurrences are found from
  the left and do not overlap. The counter is the number of characters of a found
  occurrence still to pass over.
\<close>

fun py_replace :: "ustr \<Rightarrow> ustr \<Rightarrow> nat \<Rightarrow> ustr \<Rightarrow> ustr" where
  "py_replace pat rep k [] = []"
| "py_replace pat rep (Suc k) (c # cs) = py_replace pat rep k cs"
| "py_replace pat rep 0 (c # cs) =
     (if take (length pat) (c # cs) = pat
      then rep @ py_replace pat rep (length pat - 1) cs
      else c # py_replace pat rep 0 cs)"

text \<open>\<open>", ".join(xs)\<close>.\<close>

fun py_join_str :: "ustr \<Rightarrow> ustr list \<Rightarrow> ustr" where
  "py_join_str sep [] = []"
| "py_join_str sep [x] = x"
| "py_join_str sep (x # y # xs) = x @ sep @ py_join_str sep (y # xs)"

text \<open>\<open>os.path.join(a, b)\<close> on a POSIX system.\<close>

definition path_join :: "ustr \<Rightarrow> ustr \<Rightarrow> ustr" where
  "path_join a b =
     (if take 1 b = [47] then b
      else if a = [] \<or> last a = 47 then a @ b
      else a @ [47] @ b)"

text \<open>\<open>_sanitize_filename\<close>: the characters \<open>\ / * ? : " < > |\<close> are removed.\<close>

definition sanitize_filename :: "ustr \<Rightarrow> ustr" where
  "sanitize_filename name =
     filter (\<lambda>c. c \<notin> set [92, 47, 42, 63, 58, 34, 60, 62, 124]) name"

type_synonym byte = "8 word"
type_synonym bytes = "byte list"

text \<open>The files of the machine: the content of every path that exists.\<close>

type_synonym files = "ustr \<rightharpoonup> bytes"

datatype error =
    ValueError ustr        \<comment> \<open>raised by the downloader itself, with its message\<close>
  | BinasciiError          \<comment> \<open>\<open>binascii.Error\<close>: \<open>base64.b64decode\<close> rejects the payload\<close>
  | JSONDecodeError        \<comment> \<open>\<open>json.loads\<close> rejects the manifest\<close>
  | ParseError             \<comment> \<open>\<open>ET.fromstring\<close> rejects the manifest\<close>
  | IntTypeError           \<comment> \<open>\<open>int(None)\<close>\<close>
  | IntValueError          \<comment> \<open>\<open>int\<close> of a string that is not a number\<close>
  | AttributeError         \<comment> \<open>an attribute of \<open>None\<close>\<close>
  | RequestException       \<comment> \<open>the request, its status or its stream fails\<close>
  | FileNotFoundError

text \<open>
  What one call of \<open>_download_file\<close> meets on the network: a failure before the
  destination is opened (the request or \<open>raise_for_status\<close>), a stream that breaks after
  some bytes, or the whole body.
\<close>

datatype fetch_result = Refused | Broken bytes | Complete bytes

text \<open>
  The network and these library functions are parameters of the model: the JSON parser
  reduced to what \<open>_download_bts\<close> reads of its result, the XML parser reduced to what
  \<open>_download_dash\<close> finds in the tree, and \<open>urljoin\<close>.
\<close>

datatype json_result = JsonError | JsonObject "ustr list option"

datatype attr = Missing | Malformed | Num int

record s_elem =
  s_d :: attr
  s_r :: attr

record mpd_view =
  mv_base_url :: ustr                      \<comment> \<open>\<open>base_url\<close>, line 70\<close>
  mv_representation :: bool                \<comment> \<open>\<open>representation is not None\<close>\<close>
  mv_seg_template :: bool                  \<comment> \<open>\<open>seg_template is not None\<close>\<close>
  mv_initialization :: "ustr option"       \<comment> \<open>\<open>seg_template.get("initialization")\<close>\<close>
  mv_media :: "ustr option"                \<comment> \<open>\<open>seg_template.get("media")\<close>\<close>
  mv_timeline :: "s_elem list option"      \<comment> \<open>the \<open>S\<close> elements of the timeline, if there is one\<close>

record world =
  json_loads :: "bytes \<Rightarrow> json_result"
  parse_mpd :: "bytes \<Rightarrow> mpd_view option"
  urljoin :: "ustr \<Rightarrow> ustr \<Rightarrow> ustr"
  fetch :: "ustr \<Rightarrow> fetch_result"

type_synonym 'a outcome = "(error + 'a) \<times> files"

text \<open>\<open>_download_file\<close>: the outcome and the files it leaves.\<close>

definition download_file :: "world \<Rightarrow> ustr \<Rightarrow> ustr \<Rightarrow> files \<Rightarrow> unit outcome" where
  "download_file w url dest fs =
     (case fetch w url of
        Refused \<Rightarrow> (Inl RequestException, fs)
      | Broken b \<Rightarrow> (Inl RequestException, fs(dest \<mapsto> b))
      | Complete b \<Rightarrow> (Inr (), fs(dest \<mapsto> b)))"

definition artist_names :: "TrackSearchItem \<Rightarrow> ustr" where
  "artist_names metadata =
     py_join_str (u '', '') (filter (\<lambda>n. n \<noteq> []) (map a_name (t_artists metadata)))"

subsection \<open>Direct-URL manifests\<close>


subsection \<open>Segmented manifests\<close>

text \<open>Lines 94 to 98: the durations of the segments, one entry of the timeline at a time.\<close>

definition expand_step :: "int list \<Rightarrow> s_elem \<Rightarrow> error + int list" where
  "expand_step segments s =
     (case s_d s of
        Missing \<Rightarrow> Inl IntTypeError
      | Malformed \<Rightarrow> Inl IntValueError
      | Num d \<Rightarrow>
          (case s_r s of
             Malformed \<Rightarrow> Inl IntValueError
           | Missing \<Rightarrow> Inr (segments @ replicate (nat (0 + 1)) d)
           | Num r0 \<Rightarrow> Inr (segments @ replicate (nat (r0 + 1)) d)))"

fun expand_loop :: "int list \<Rightarrow> s_elem list \<Rightarrow> error + int list" where
  "expand_loop segments [] = Inr segments"
| "expand_loop segments (s # ss) =
     (case expand_step segments s of
        Inl e \<Rightarrow> Inl e
      | Inr segments' \<Rightarrow> expand_loop segments' ss)"

definition expand_timeline :: "s_elem list \<Rightarrow> error + int list" where
  "expand_timeline ss = expand_loop [] ss"

definition init_path :: "ustr \<Rightarrow> TrackSearchItem \<Rightarrow> ustr" where
  "init_path output_dir metadata = path_join output_dir (str_int (t_id metadata) @ u ''_init.m4s'')"

definition seg_path :: "ustr \<Rightarrow> TrackSearchItem \<Rightarrow> nat \<Rightarrow> ustr" where
  "seg_path output_dir metadata i =
     path_join output_dir (str_int (t_id metadata) @ u ''_seg_'' @ str_nat i @ u ''.m4s'')"

definition seg_url :: "world \<Rightarrow> ustr \<Rightarrow> ustr \<Rightarrow> nat \<Rightarrow> ustr" where
  "seg_url w base_url media_template i =
     urljoin w base_url (py_replace (u ''$Number$'') (str_nat i) 0 media_template)"

text \<open>Lines 104 to 109: the segments are fetched in the order of the indices given.\<close>

fun fetch_segments ::
  "world \<Rightarrow> ustr \<Rightarrow> TrackSearchItem \<Rightarrow> ustr \<Rightarrow> ustr \<Rightarrow> nat list \<Rightarrow> files
     \<Rightarrow> ustr list outcome" where
  "fetch_segments w output_dir metadata base_url media_template [] fs = (Inr [], fs)"
| "fetch_segments w output_dir metadata base_url media_template (i # is) fs =
     (case download_file w (seg_url w base_url media_template i)
             (seg_path output_dir metadata i) fs of
        (Inl e, fs') \<Rightarrow> (Inl e, fs')
      | (Inr _, fs') \<Rightarrow>
          (case fetch_segments w output_dir metadata base_url media_template is fs' of
             (Inl e, fs'') \<Rightarrow> (Inl e, fs'')
           | (Inr media_paths, fs'') \<Rightarrow>
               (Inr (seg_path output_dir metadata i # media_paths), fs'')))"

text \<open>Lines 113 to 118: each file read is appended to the output file.\<close>

fun concat_into :: "ustr \<Rightarrow> ustr list \<Rightarrow> files \<Rightarrow> unit outcome" where
  "concat_into out_path [] fs = (Inr (), fs)"
| "concat_into out_path (p # ps) fs =
     (case fs p of
        None \<Rightarrow> (Inl FileNotFoundError, fs)
      | Some b \<Rightarrow>
          concat_into out_path ps
            (fs(out_path \<mapsto> (case fs out_path of Some c \<Rightarrow> c | None \<Rightarrow> []) @ b)))"

text \<open>Lines 120 to 122: \<open>os.remove\<close> of each path in turn.\<close>

fun remove_all :: "ustr list \<Rightarrow> files \<Rightarrow> unit outcome" where
  "remove_all [] fs = (Inr (), fs)"
| "remove_all (p # ps) fs =
     (case fs p of
        None \<Rightarrow> (Inl FileNotFoundError, fs)
      | Some _ \<Rightarrow> remove_all ps (fs(p := None)))"

text \<open>Lines 100 to 124, once the durations are known.\<close>

definition assemble_segments ::
  "world \<Rightarrow> ustr \<Rightarrow> TrackSearchItem \<Rightarrow> ustr \<Rightarrow> ustr \<Rightarrow> ustr \<Rightarrow> int list \<Rightarrow> files
     \<Rightarrow> ustr outcome" where
  "assemble_segments w output_dir metadata base_url init_template media_template segments fs =
     (let init_url = urljoin w base_url init_template;
          ip = init_path output_dir metadata
      in case download_file w init_url ip fs of
           (Inl e, fs1) \<Rightarrow> (Inl e, fs1)
         | (Inr _, fs1) \<Rightarrow>
        (case fetch_segments w output_dir metadata base_url media_template
                [1 ..< length segments + 1] fs1 of
           (Inl e, fs2) \<Rightarrow> (Inl e, fs2)
         | (Inr media_paths, fs2) \<Rightarrow>
        (case t_artist metadata of
           None \<Rightarrow> (Inl AttributeError, fs2)
         | Some a \<Rightarrow>
        (let filename = sanitize_filename
               (a_name a @ u '' - '' @ t_title metadata @ u ''.flac'');
             out_path = path_join output_dir filename
         in case concat_into out_path (ip # media_paths) (fs2(out_path \<mapsto> [])) of
              (Inl e, fs3) \<Rightarrow> (Inl e, fs3)
            | (Inr _, fs3) \<Rightarrow>
           (case remove_all (ip # media_paths) fs3 of
              (Inl e, fs4) \<Rightarrow> (Inl e, fs4)
            | (Inr _, fs4) \<Rightarrow> (Inr out_path, fs4))))))"

text \<open>\<open>_download_dash\<close> on what the parser found in the manifest.\<close>

definition download_dash_view ::
  "world \<Rightarrow> ustr \<Rightarrow> mpd_view \<Rightarrow> TrackSearchItem \<Rightarrow> files \<Rightarrow> ustr outcome" where
  "download_dash_view w output_dir v metadata fs =
     (if \<not> mv_representation v then
        (Inl (ValueError (u ''Could not find Representation in MPD'')), fs)
      else if \<not> mv_seg_template v then
        (Inl (ValueError (u ''Could not find SegmentTemplate'')), fs)
      else
        (case (mv_initialization v, mv_media v) of
           (Some (ic # it), Some (mc # mt)) \<Rightarrow>
             (let init_template = ic # it; media_template = mc # mt; base_url = mv_base_url v
              in case mv_timeline v of
                   None \<Rightarrow>
                     (let media_url = urljoin w base_url
                            (py_replace (u ''$Number$'') (u ''1'') 0 media_template);
                          filename = sanitize_filename
                            (artist_names metadata @ u '' - '' @ t_title metadata @ u ''.flac'');
                          out_path = path_join output_dir filename
                      in case download_file w media_url out_path fs of
                           (Inl e, fs') \<Rightarrow> (Inl e, fs')
                         | (Inr _, fs') \<Rightarrow> (Inr out_path, fs'))
                 | Some ss \<Rightarrow>
                     (case expand_timeline ss of
                        Inl e \<Rightarrow> (Inl e, fs)
                      | Inr segments \<Rightarrow>
                          assemble_segments w output_dir metadata base_url init_template
                            media_template segments fs))
         | _ \<Rightarrow> (Inl (ValueError (u ''Missing attributes in SegmentTemplate'')), fs)))"

definition download_dash :: "world \<Rightarrow> ustr \<Rightarrow> bytes \<Rightarrow> TrackSearchItem \<Rightarrow> files \<Rightarrow> ustr outcome" where
  "download_dash w output_dir manifest_xml metadata fs =
     (case parse_mpd w manifest_xml of
        None \<Rightarrow> (Inl ParseError, fs)
      | Some v \<Rightarrow> download_dash_view w output_dir v metadata fs)"

subsection \<open>The base64 decoder\<close>






subsection \<open>Routing by manifest type\<close>




text \<open>
  An entry of the timeline that \<open>int\<close> accepts, its duration, and its repeat count, 0 when
  the attribute is absent.
\<close>

definition entry_ok :: "s_elem \<Rightarrow> bool" where
  "entry_ok s = ((case s_d s of Num d \<Rightarrow> True | _ \<Rightarrow> False) \<and> s_r s \<noteq> Malformed)"

definition entry_duration :: "s_elem \<Rightarrow> int" where
  "entry_duration s = (case s_d s of Num d \<Rightarrow> d | _ \<Rightarrow> 0)"

definition entry_repeat :: "s_elem \<Rightarrow> int" where
  "entry_repeat s = (case s_r s of Num r0 \<Rightarrow> r0 | _ \<Rightarrow> 0)"

subsection \<open>The paths and files of one assembly\<close>

text \<open>
  \<open>os.path.join(a, b)\<close> is \<open>dir_prefix a @ b\<close> for a name \<open>b\<close> that is not empty and does not
  start with a slash. \<open>out_path_of\<close> is the destination path, as lines 111 and 112 build it.
\<close>

definition dir_prefix :: "ustr \<Rightarrow> ustr" where
  "dir_prefix a = (if a = [] \<or> last a = 47 then a else a @ [47])"

definition out_path_of :: "ustr \<Rightarrow> ustr \<Rightarrow> ustr \<Rightarrow> ustr" where
  "out_path_of od name title =
     path_join od (sanitize_filename (name @ u '' - '' @ title @ u ''.flac''))"

text \<open>The bytes that a fetch of \<open>url\<close> delivers.\<close>

definition fetched :: "world \<Rightarrow> ustr \<Rightarrow> bytes" where
  "fetched w url = (case fetch w url of Complete b \<Rightarrow> b | Broken b \<Rightarrow> b | Refused \<Rightarrow> [])"

text \<open>The files after the segments with the indices \<open>is\<close> have been written, in that order.\<close>

definition written ::
  "world \<Rightarrow> ustr \<Rightarrow> TrackSearchItem \<Rightarrow> ustr \<Rightarrow> ustr \<Rightarrow> nat list \<Rightarrow> files \<Rightarrow> files" where
  "written w od md base media is fs =
     foldl (\<lambda>fs i. fs(seg_path od md i \<mapsto> fetched w (seg_url w base media i))) fs is"

text \<open>
  The temporary files of one call with \<open>n\<close> media segments: the initialisation segment and
  the segments 1 to \<open>n\<close>.
\<close>

definition temp_paths :: "ustr \<Rightarrow> TrackSearchItem \<Rightarrow> nat \<Rightarrow> ustr list" where
  "temp_paths od md n = init_path od md # map (seg_path od md) [1 ..< n + 1]"

text \<open>Sample records for evaluating the definitions on concrete inputs.\<close>

definition sample_artist :: "int \<Rightarrow> string \<Rightarrow> Artist" where
  "sample_artist i n = \<lparr>a_id = i, a_name = u n, a_picture = None, a_type = None\<rparr>"

definition sample_album :: "int \<Rightarrow> string \<Rightarrow> Album" where
  "sample_album i n =
     \<lparr>al_id = i, al_title = u n, al_cover = None, al_vibrantColor = None, al_artist = None\<rparr>"

definition sample_track ::
  "int \<Rightarrow> string \<Rightarrow> Album \<Rightarrow> string \<Rightarrow> int option \<Rightarrow> int option \<Rightarrow> TrackSearchItem" where
  "sample_track i title al q pop num =
     \<lparr>t_id = i, t_title = u title, t_duration = 200, t_popularity = pop,
      t_artist = Some (sample_artist 7 ''Ana''), t_artists = [sample_artist 7 ''Ana''],
      t_album = Some al, t_explicit = Some False, t_audioQuality = Some (u q),
      t_version = None, t_isrc = None, t_copyright = None, t_bpm = None, t_key = None,
      t_keyScale = None, t_releaseDate = None, t_trackNumber = num, t_volumeNumber = None,
      t_streamStartDate = None\<rparr>"

text \<open>
  A sample manifest of three segments, and a sample world in which every fetch succeeds
  but that of the second segment, whose result is the parameter.
\<close>

definition sample_view :: mpd_view where
  "sample_view =
     \<lparr>mv_base_url = u ''h/'', mv_representation = True, mv_seg_template = True,
      mv_initialization = Some (u ''i''), mv_media = Some (u ''s$Number$''),
      mv_timeline = Some [\<lparr>s_d = Num 4, s_r = Num 1\<rparr>, \<lparr>s_d = Num 5, s_r = Missing\<rparr>]\<rparr>"

definition sample_world :: "fetch_result \<Rightarrow> world" where
  "sample_world second =
     \<lparr>json_loads = (\<lambda>b. JsonError),
      parse_mpd = (\<lambda>b. if b = [120] then Some sample_view else None),
      urljoin = (\<lambda>base url. base @ url),
      fetch = (\<lambda>url. if url = u ''h/i'' then Complete [1, 2]
                      else if url = u ''h/s1'' then Complete [3]
                      else if url = u ''h/s2'' then second
                      else if url = u ''h/s3'' then Complete [6]
                      else Refused)\<rparr>"

definition sample_metadata :: TrackSearchItem where
  "sample_metadata = sample_track 9 ''T'' (sample_album 11 ''Minor'') ''LOSSLESS'' None None"

section \<open>Normalisation\<close>

lemma alnum_facts:
  assumes "is_alnum c"
  shows "c < 128" and "c \<noteq> 40" and "c \<noteq> 91" and "ascii_lower c = c"
    and "\<not> is_space db c" and "\<not> is_mn db c"
  using assms by (auto simp: is_alnum_def ascii_lower_def is_space_def is_mn_def)

lemma normalize_str_alnum: "list_all is_alnum (normalize_str db s)"
  by (simp add: normalize_str_def Let_def list_all_iff)

lemma alnum_is_ascii: "list_all is_alnum s \<Longrightarrow> is_ascii s"
  unfolding is_ascii_def
  by (induction s) (simp_all add: alnum_facts(1) not_le)

lemma alnum_lower: "list_all is_alnum s \<Longrightarrow> map ascii_lower s = s"
  by (induction s) (simp_all add: alnum_facts(4))

lemma alnum_dropWhile: "list_all is_alnum s \<Longrightarrow> dropWhile (is_space db) s = s"
  by (cases s) (simp_all add: alnum_facts(5))

lemma alnum_strip: "list_all is_alnum s \<Longrightarrow> py_strip db s = s"
  by (simp add: py_strip_def alnum_dropWhile)

lemma re_sub_group_id: "opn \<notin> set s \<Longrightarrow> re_sub_group opn cl 0 s = s"
  by (induction s) simp_all

lemma alnum_no_paren: "list_all is_alnum s \<Longrightarrow> 40 \<notin> set s \<and> 91 \<notin> set s"
  by (induction s) (use alnum_facts(2,3) in auto)

lemma alnum_not_mn: "list_all is_alnum s \<Longrightarrow> filter (\<lambda>c. \<not> is_mn db c) s = s"
  by (induction s) (simp_all add: alnum_facts(6))

lemma alnum_filter: "list_all is_alnum s \<Longrightarrow> filter is_alnum s = s"
  by (induction s) simp_all

lemma normalize_str_fixed:
  assumes a: "list_all is_alnum s"
  shows "normalize_str db s = s"
proof -
  have 1: "py_strip db (py_lower db s) = s"
    using a by (simp add: py_lower_def alnum_is_ascii alnum_lower alnum_strip)
  have 2: "re_sub_group 40 41 0 s = s" and 3: "re_sub_group 91 93 0 s = s"
    using alnum_no_paren [OF a] by (simp_all add: re_sub_group_id)
  have 4: "filter (\<lambda>c. \<not> is_mn db c) (py_nfd db s) = s"
    using a by (simp add: py_nfd_def alnum_is_ascii alnum_not_mn)
  show ?thesis
    unfolding normalize_str_def Let_def 1 2 3 4
    using a by (simp add: alnum_filter)
qed

text \<open>
  C9. \<open>normalize_str\<close> is idempotent: normalising a normalised string changes nothing,
  for every string and every Unicode database.
\<close>

theorem normalize_str_idempotent:
  "normalize_str db (normalize_str db s) = normalize_str db s"
  by (rule normalize_str_fixed [OF normalize_str_alnum])

section \<open>Deduplication\<close>

lemma first_occurrences_snoc:
  "first_occurrences (xs @ [x]) =
     (if x \<in> set xs then first_occurrences xs else first_occurrences xs @ [x])"
  by (simp add: first_occurrences_def)

lemma set_first_occurrences: "set (first_occurrences xs) = set xs"
  by (simp add: first_occurrences_def)

lemma distinct_first_occurrences: "distinct (first_occurrences xs)"
  by (simp add: first_occurrences_def)

lemma first_occurrences_Cons:
  "first_occurrences (x # xs) = x # filter (\<lambda>y. y \<noteq> x) (first_occurrences xs)"
proof (induction xs rule: rev_induct)
  case Nil
  then show ?case by (simp add: first_occurrences_def)
next
  case (snoc y ys)
  have "first_occurrences (x # ys @ [y]) = first_occurrences ((x # ys) @ [y])" by simp
  also have "\<dots> = (if y \<in> set (x # ys) then first_occurrences (x # ys)
                     else first_occurrences (x # ys) @ [y])"
    by (rule first_occurrences_snoc)
  finally show ?case
    using snoc.IH by (auto simp: first_occurrences_snoc)
qed

lemma dict_set_keys:
  "map fst (dict_set k v d) = (if k \<in> set (map fst d) then map fst d else map fst d @ [k])"
  by (induction d) force+

lemma map_of_dict_set: "map_of (dict_set k v d) = (map_of d)(k \<mapsto> v)"
  by (induction d) (auto simp: fun_eq_iff)

lemma first_best_other:
  assumes "first_best db ts r" and "track_key db t \<noteq> track_key db r"
  shows "first_best db (ts @ [t]) r"
  using assms unfolding first_best_def by auto

lemma first_best_new:
  assumes "track_key db t \<notin> set (map (track_key db) ts)"
  shows "first_best db (ts @ [t]) t"
proof -
  have "filter (\<lambda>x. track_key db x = track_key db t) ts = []"
    using assms by (auto simp: filter_empty_conv image_iff)
  then have "filter (\<lambda>x. track_key db x = track_key db t) (ts @ [t]) = [] @ t # []"
    by simp
  then show ?thesis unfolding first_best_def by fastforce
qed

lemma first_best_keep:
  assumes "first_best db ts r" and "track_key db t = track_key db r"
    and "\<not> qualities (t_audioQuality t) > qualities (t_audioQuality r)"
  shows "first_best db (ts @ [t]) r"
proof -
  from assms(1) obtain pre post where
    f: "filter (\<lambda>x. track_key db x = track_key db r) ts = pre @ r # post"
    and l: "\<forall>x\<in>set pre. qualities (t_audioQuality x) < qualities (t_audioQuality r)"
    and g: "\<forall>x\<in>set post. qualities (t_audioQuality x) \<le> qualities (t_audioQuality r)"
    unfolding first_best_def by blast
  have "filter (\<lambda>x. track_key db x = track_key db r) (ts @ [t]) = pre @ r # (post @ [t])"
    using f assms(2) by simp
  moreover have "\<forall>x\<in>set (post @ [t]). qualities (t_audioQuality x) \<le> qualities (t_audioQuality r)"
    using g assms(3) by auto
  ultimately show ?thesis unfolding first_best_def using l by blast
qed

lemma first_best_replace:
  assumes "first_best db ts r" and "track_key db t = track_key db r"
    and "qualities (t_audioQuality t) > qualities (t_audioQuality r)"
  shows "first_best db (ts @ [t]) t"
proof -
  from assms(1) obtain pre post where
    f: "filter (\<lambda>x. track_key db x = track_key db r) ts = pre @ r # post"
    and l: "\<forall>x\<in>set pre. qualities (t_audioQuality x) < qualities (t_audioQuality r)"
    and g: "\<forall>x\<in>set post. qualities (t_audioQuality x) \<le> qualities (t_audioQuality r)"
    unfolding first_best_def by blast
  have "filter (\<lambda>x. track_key db x = track_key db t) (ts @ [t]) = (pre @ r # post) @ t # []"
    using f assms(2) by simp
  moreover have "\<forall>x\<in>set (pre @ r # post). qualities (t_audioQuality x) < qualities (t_audioQuality t)"
    using l g assms(3) by fastforce
  ultimately show ?thesis
    unfolding first_best_def
    by (intro exI [of _ "pre @ r # post"] exI [of _ "[]"]) simp
qed

lemma dedup_inv_step:
  assumes inv: "dedup_inv db ts d"
  shows "dedup_inv db (ts @ [t]) (dedup_step db d t)"
proof -
  let ?k = "track_key db t"
  from inv have keys: "map fst d = first_occurrences (map (track_key db) ts)"
    and vals: "\<And>k r. map_of d k = Some r \<Longrightarrow> track_key db r = k \<and> first_best db ts r"
    unfolding dedup_inv_def by blast+
  have dom: "?k \<in> set (map fst d) \<longleftrightarrow> ?k \<in> set (map (track_key db) ts)"
    by (simp only: keys set_first_occurrences)
  show ?thesis
  proof (cases "map_of d ?k")
    case None
    then have nk: "?k \<notin> set (map fst d)"
      by (simp add: map_of_eq_None_iff)
    then have nt: "?k \<notin> set (map (track_key db) ts)" using dom by blast
    have step: "dedup_step db d t = dict_set ?k t d"
      using None by (simp add: dedup_step_def)
    have k': "map fst (dict_set ?k t d) = first_occurrences (map (track_key db) (ts @ [t]))"
      using nk nt keys by (simp add: dict_set_keys first_occurrences_snoc)
    have v': "track_key db r = k \<and> first_best db (ts @ [t]) r"
      if "map_of (dict_set ?k t d) k = Some r" for k r
    proof (cases "k = ?k")
      case True
      with that have "r = t" by (simp add: map_of_dict_set)
      then show ?thesis using True first_best_new [OF nt] by simp
    next
      case False
      with that have m: "map_of d k = Some r" by (simp add: map_of_dict_set)
      from vals [OF m] False show ?thesis
        using first_best_other by metis
    qed
    show ?thesis unfolding dedup_inv_def step using k' v' by blast
  next
    case (Some cur)
    then have ik: "?k \<in> set (map fst d)"
      by (metis map_of_eq_None_iff option.distinct(1) set_map)
    then have it: "?k \<in> set (map (track_key db) ts)" using dom by blast
    from vals [OF Some] have ck: "track_key db cur = ?k" and cb: "first_best db ts cur"
      by simp_all
    show ?thesis
    proof (cases "qualities (t_audioQuality t) > qualities (t_audioQuality cur)")
      case True
      have step: "dedup_step db d t = dict_set ?k t d"
        using Some True by (simp add: dedup_step_def)
      have k': "map fst (dict_set ?k t d) = first_occurrences (map (track_key db) (ts @ [t]))"
        using ik it keys by (simp add: dict_set_keys first_occurrences_snoc)
      have v': "track_key db r = k \<and> first_best db (ts @ [t]) r"
        if "map_of (dict_set ?k t d) k = Some r" for k r
      proof (cases "k = ?k")
        case True
        with that have "r = t" by (simp add: map_of_dict_set)
        then show ?thesis
          using True first_best_replace [OF cb ck [symmetric] \<open>qualities (t_audioQuality t) > qualities (t_audioQuality cur)\<close>]
          by simp
      next
        case False
        with that have m: "map_of d k = Some r" by (simp add: map_of_dict_set)
        from vals [OF m] False show ?thesis
          using first_best_other by metis
      qed
      show ?thesis unfolding dedup_inv_def step using k' v' by blast
    next
      case False
      have step: "dedup_step db d t = d"
        using Some False by (simp add: dedup_step_def)
      have k': "map fst d = first_occurrences (map (track_key db) (ts @ [t]))"
        using it keys by (simp add: first_occurrences_snoc)
      have v': "track_key db r = k \<and> first_best db (ts @ [t]) r"
        if m: "map_of d k = Some r" for k r
      proof (cases "k = ?k")
        case True
        with m Some have "r = cur" by simp
        then show ?thesis
          using True ck first_best_keep [OF cb ck [symmetric] False] by simp
      next
        case False
        from vals [OF m] False show ?thesis
          using first_best_other by metis
      qed
      show ?thesis unfolding dedup_inv_def step using k' v' by blast
    qed
  qed
qed

lemma dedup_inv_foldl: "dedup_inv db ts (foldl (dedup_step db) [] ts)"
proof (induction ts rule: rev_induct)
  case Nil
  then show ?case by (simp add: dedup_inv_def first_occurrences_def)
next
  case (snoc t ts)
  then show ?case using dedup_inv_step by simp
qed


lemma dedup_inv_values:
  assumes "dedup_inv db ts d"
  shows "map (track_key db) (dict_values d) = map fst d"
    and "r \<in> set (dict_values d) \<Longrightarrow> first_best db ts r"
proof -
  from assms have dist: "distinct (map fst d)"
    by (simp add: dedup_inv_def distinct_first_occurrences)
  have ent: "track_key db r' = k \<and> first_best db ts r'" if "(k, r') \<in> set d" for k r'
    using assms that dist unfolding dedup_inv_def by (metis map_of_is_SomeI)
  then show "map (track_key db) (dict_values d) = map fst d"
    by (auto simp: dict_values_def)
  show "first_best db ts r" if "r \<in> set (dict_values d)"
    using that ent by (auto simp: dict_values_def)
qed

text \<open>
  C3. The keys of the output of \<open>deduplicate_tracks\<close> are the distinct keys of the input,
  each once, in the order of their first occurrence; and the record kept for a key is the
  first record of its group of maximal rank under LOW < HIGH < LOSSLESS < HI_RES_LOSSLESS
  (an absent or unknown quality ranks below LOW).
\<close>

theorem deduplicate_tracks_first_best:
  "map (track_key db) (deduplicate_tracks db ts) = first_occurrences (map (track_key db) ts)
   \<and> distinct (map (track_key db) (deduplicate_tracks db ts))
   \<and> set (map (track_key db) (deduplicate_tracks db ts)) = set (map (track_key db) ts)
   \<and> (\<forall>r\<in>set (deduplicate_tracks db ts). first_best db ts r)"
proof -
  let ?d = "foldl (dedup_step db) [] ts"
  have inv: "dedup_inv db ts ?d" by (rule dedup_inv_foldl)
  have k: "map (track_key db) (deduplicate_tracks db ts) = first_occurrences (map (track_key db) ts)"
    using dedup_inv_values(1) [OF inv] inv by (simp add: deduplicate_tracks_def dedup_inv_def)
  have b: "\<forall>r\<in>set (deduplicate_tracks db ts). first_best db ts r"
    using dedup_inv_values(2) [OF inv] by (simp add: deduplicate_tracks_def)
  show ?thesis
    using k b by (simp only: distinct_first_occurrences set_first_occurrences simp_thms)
qed

theorem deduplicate_tracks_first_best_witness:
  "deduplicate_tracks ascii_db
     [sample_track 1 ''Song (Live)'' (sample_album 5 ''Debut'') ''LOW'' None None,
      sample_track 2 ''Other'' (sample_album 5 ''Debut'') ''HIGH'' None None,
      sample_track 3 ''song'' (sample_album 6 ''DEBUT [Deluxe]'') ''LOSSLESS'' None None,
      sample_track 4 ''SONG'' (sample_album 5 ''Debut'') ''LOSSLESS'' None None]
   = [sample_track 3 ''song'' (sample_album 6 ''DEBUT [Deluxe]'') ''LOSSLESS'' None None,
      sample_track 2 ''Other'' (sample_album 5 ''Debut'') ''HIGH'' None None]
   \<and> first_best ascii_db
     [sample_track 1 ''Song (Live)'' (sample_album 5 ''Debut'') ''LOW'' None None,
      sample_track 2 ''Other'' (sample_album 5 ''Debut'') ''HIGH'' None None,
      sample_track 3 ''song'' (sample_album 6 ''DEBUT [Deluxe]'') ''LOSSLESS'' None None,
      sample_track 4 ''SONG'' (sample_album 5 ''Debut'') ''LOSSLESS'' None None]
     (sample_track 3 ''song'' (sample_album 6 ''DEBUT [Deluxe]'') ''LOSSLESS'' None None)"
proof -
  let ?ts = "[sample_track 1 ''Song (Live)'' (sample_album 5 ''Debut'') ''LOW'' None None,
      sample_track 2 ''Other'' (sample_album 5 ''Debut'') ''HIGH'' None None,
      sample_track 3 ''song'' (sample_album 6 ''DEBUT [Deluxe]'') ''LOSSLESS'' None None,
      sample_track 4 ''SONG'' (sample_album 5 ''Debut'') ''LOSSLESS'' None None]"
  have e: "deduplicate_tracks ascii_db ?ts
    = [sample_track 3 ''song'' (sample_album 6 ''DEBUT [Deluxe]'') ''LOSSLESS'' None None,
       sample_track 2 ''Other'' (sample_album 5 ''Debut'') ''HIGH'' None None]"
    by code_simp
  from deduplicate_tracks_first_best [of ascii_db ?ts]
  have "\<forall>r\<in>set (deduplicate_tracks ascii_db ?ts). first_best ascii_db ?ts r"
    by (elim conjE)
  then show ?thesis unfolding e by simp
qed

section \<open>Classification\<close>

lemma is_verified_eq_spec:
  "is_verified db ia it ids t = verified_spec db ia it ids t"
  unfolding is_verified_def verified_spec_def popularity_or_0_def
  by (cases "t_album t"; cases "t_popularity t") auto

lemma classify_foldl:
  "fst (foldl (classify_step db ia it ids) (acc, D) ts)
     = acc @ filter (is_verified db ia it ids) ts"
  by (induction ts arbitrary: acc D) (simp_all add: classify_step_def)

lemma classify_filter:
  "fst (classify db ia it ids ts) = filter (is_verified db ia it ids) ts"
  using classify_foldl [of db ia it ids "[]" "{}" ts] by (simp add: classify_def)

text \<open>
  C2. For every track, every pair of reference sets and every set of verified album ids,
  \<open>is_verified\<close> is the claimed precedence: with both reference sets empty, popularity
  (0 when missing) at least 5; otherwise the album id among the verified ids, or the
  normalised title among the reference tracks, or the normalised album title among the
  reference albums, or popularity at least 50. The tracks that the loop keeps are those and
  no others.
\<close>

theorem classification_precedence:
  "is_verified db ref_albums ref_tracks ids t = verified_spec db ref_albums ref_tracks ids t
   \<and> fst (classify db ref_albums ref_tracks ids ts)
       = filter (verified_spec db ref_albums ref_tracks ids) ts"
  using classify_filter [of db ref_albums ref_tracks ids ts]
  by (simp add: is_verified_eq_spec [abs_def])

theorem classification_precedence_witness:
  "is_verified ascii_db {} {} {}
     (sample_track 1 ''One'' (sample_album 11 ''Minor'') ''LOW'' (Some 10) None)
   \<and> \<not> is_verified ascii_db {} {} {}
     (sample_track 1 ''One'' (sample_album 11 ''Minor'') ''LOW'' (Some 2) None)
   \<and> is_verified ascii_db {u ''other''} {} {11}
     (sample_track 1 ''One'' (sample_album 11 ''Minor'') ''LOW'' (Some 2) None)
   \<and> \<not> is_verified ascii_db {u ''other''} {} {12}
     (sample_track 1 ''One'' (sample_album 11 ''Minor'') ''LOW'' (Some 49) None)"
proof -
  have 1: "verified_spec ascii_db {} {} {}
     (sample_track 1 ''One'' (sample_album 11 ''Minor'') ''LOW'' (Some 10) None)"
    by code_simp
  have 2: "\<not> verified_spec ascii_db {} {} {}
     (sample_track 1 ''One'' (sample_album 11 ''Minor'') ''LOW'' (Some 2) None)"
    by code_simp
  have 3: "verified_spec ascii_db {u ''other''} {} {11}
     (sample_track 1 ''One'' (sample_album 11 ''Minor'') ''LOW'' (Some 2) None)"
    by code_simp
  have 4: "\<not> verified_spec ascii_db {u ''other''} {} {12}
     (sample_track 1 ''One'' (sample_album 11 ''Minor'') ''LOW'' (Some 49) None)"
    by code_simp
  show ?thesis
    using 1 2 3 4 classification_precedence [of ascii_db _ _ _ _ "[]"]
    by (simp only: simp_thms)
qed

section \<open>Fallback to the deduplicated set\<close>

lemma mset_sorted_tracks: "mset (sorted_tracks db ts) = mset ts"
  by (simp add: sorted_tracks_def)

lemma final_tracks_fallback:
  assumes "\<forall>t\<in>set (unique_values db strict).
             \<not> is_verified db ia it (verified_album_ids db ia it (unique_values db strict)) t"
  shows "final_tracks db ia it strict = unique_values db strict"
proof -
  have "filter (is_verified db ia it (verified_album_ids db ia it (unique_values db strict)))
          (unique_values db strict) = []"
    using assms by (simp add: filter_empty_conv)
  then show ?thesis
    by (simp add: final_tracks_def Let_def classify_filter)
qed

lemma final_tracks_nonempty:
  "unique_values db strict \<noteq> [] \<Longrightarrow> final_tracks db ia it strict \<noteq> []"
  by (simp add: final_tracks_def Let_def)

lemma unique_tracks_nonempty_aux:
  "d \<noteq> [] \<or> ts \<noteq> [] \<Longrightarrow> foldl (\<lambda>d t. dict_set (t_id t) t d) d ts \<noteq> []"
proof (induction ts arbitrary: d)
  case Nil
  then show ?case by simp
next
  case (Cons t ts)
  have "dict_set (t_id t) t d \<noteq> []" by (cases d) (auto split: if_splits)
  then show ?case using Cons.IH by simp
qed

lemma deduplicate_nonempty: "ts \<noteq> [] \<Longrightarrow> deduplicate_tracks db ts \<noteq> []"
proof -
  assume "ts \<noteq> []"
  then have "first_occurrences (map (track_key db) ts) \<noteq> []"
    by (metis set_first_occurrences set_empty map_is_Nil_conv)
  then show ?thesis
    using dedup_inv_values(1) [OF dedup_inv_foldl, of db ts] dedup_inv_foldl [of db ts]
    by (auto simp: deduplicate_tracks_def dedup_inv_def dict_values_def)
qed

lemma unique_values_nonempty: "strict \<noteq> [] \<Longrightarrow> unique_values db strict \<noteq> []"
  using unique_tracks_nonempty_aux [of "[]" "deduplicate_tracks db strict"]
  by (simp add: unique_values_def dict_values_def unique_tracks_def deduplicate_nonempty)

lemma dict_set_fresh: "k \<notin> set (map fst d) \<Longrightarrow> dict_set k v d = d @ [(k, v)]"
  by (induction d) auto

lemma unique_tracks_distinct_aux:
  "distinct (map fst d @ map t_id ts) \<Longrightarrow>
     foldl (\<lambda>d t. dict_set (t_id t) t d) d ts = d @ map (\<lambda>t. (t_id t, t)) ts"
proof (induction ts arbitrary: d)
  case Nil
  then show ?case by simp
next
  case (Cons t ts)
  have n: "t_id t \<notin> set (map fst d)" using Cons.prems by auto
  have "distinct (map fst (d @ [(t_id t, t)]) @ map t_id ts)"
    using Cons.prems by auto
  from Cons.IH [OF this] show ?case by (simp add: dict_set_fresh [OF n])
qed

lemma unique_values_distinct_ids:
  "distinct (map t_id (deduplicate_tracks db strict)) \<Longrightarrow>
     unique_values db strict = deduplicate_tracks db strict"
  using unique_tracks_distinct_aux [of "[]" "deduplicate_tracks db strict"]
  by (simp add: unique_values_def unique_tracks_def dict_values_def comp_def)

text \<open>
  C8. The deduplicated set is what the code classifies: the values of \<open>unique_tracks\<close>
  (\<open>deduplicate_tracks\<close>, then one record per track id). When it is not empty and
  \<open>is_verified\<close> holds of none of its tracks, \<open>final_tracks\<close> is that whole list, the
  sequence returned is a reordering of it, and it is not empty.
\<close>

theorem reconcile_fallback:
  assumes "unique_values db strict \<noteq> []"
    and "\<forall>t\<in>set (unique_values db strict).
           \<not> is_verified db ia it (verified_album_ids db ia it (unique_values db strict)) t"
  shows "final_tracks db ia it strict = unique_values db strict
         \<and> mset (reconcile db ia it strict) = mset (unique_values db strict)
         \<and> reconcile db ia it strict \<noteq> []"
proof -
  have f: "final_tracks db ia it strict = unique_values db strict"
    by (rule final_tracks_fallback [OF assms(2)])
  have m: "mset (reconcile db ia it strict) = mset (unique_values db strict)"
    by (simp add: reconcile_def mset_sorted_tracks f)
  have "mset (reconcile db ia it strict) \<noteq> {#}"
    using assms(1) m by simp
  then show ?thesis using f m by auto
qed

theorem reconcile_fallback_witness:
  "map t_id (reconcile ascii_db {u ''elsewhere''} {}
     [sample_track 1 ''One'' (sample_album 11 ''Minor'') ''LOSSLESS'' (Some 40) (Some 2),
      sample_track 2 ''Two'' (sample_album 12 ''Major'') ''LOSSLESS'' (Some 30) (Some 2),
      sample_track 3 ''Three'' (sample_album 12 ''Major'') ''LOSSLESS'' (Some 10) (Some 1),
      sample_track 4 ''Four'' (sample_album 11 ''Minor'') ''LOSSLESS'' None None]) = [4, 1, 3, 2]
   \<and> mset (reconcile ascii_db {u ''elsewhere''} {}
     [sample_track 1 ''One'' (sample_album 11 ''Minor'') ''LOSSLESS'' (Some 40) (Some 2),
      sample_track 2 ''Two'' (sample_album 12 ''Major'') ''LOSSLESS'' (Some 30) (Some 2),
      sample_track 3 ''Three'' (sample_album 12 ''Major'') ''LOSSLESS'' (Some 10) (Some 1),
      sample_track 4 ''Four'' (sample_album 11 ''Minor'') ''LOSSLESS'' None None])
     = mset (unique_values ascii_db
     [sample_track 1 ''One'' (sample_album 11 ''Minor'') ''LOSSLESS'' (Some 40) (Some 2),
      sample_track 2 ''Two'' (sample_album 12 ''Major'') ''LOSSLESS'' (Some 30) (Some 2),
      sample_track 3 ''Three'' (sample_album 12 ''Major'') ''LOSSLESS'' (Some 10) (Some 1),
      sample_track 4 ''Four'' (sample_album 11 ''Minor'') ''LOSSLESS'' None None])"
proof -
  let ?ts = "[sample_track 1 ''One'' (sample_album 11 ''Minor'') ''LOSSLESS'' (Some 40) (Some 2),
      sample_track 2 ''Two'' (sample_album 12 ''Major'') ''LOSSLESS'' (Some 30) (Some 2),
      sample_track 3 ''Three'' (sample_album 12 ''Major'') ''LOSSLESS'' (Some 10) (Some 1),
      sample_track 4 ''Four'' (sample_album 11 ''Minor'') ''LOSSLESS'' None None]"
  have ne: "unique_values ascii_db ?ts \<noteq> []"
    by code_simp
  have none: "\<forall>t\<in>set (unique_values ascii_db ?ts).
      \<not> is_verified ascii_db {u ''elsewhere''} {}
          (verified_album_ids ascii_db {u ''elsewhere''} {} (unique_values ascii_db ?ts)) t"
    by code_simp
  have ids: "map t_id (reconcile ascii_db {u ''elsewhere''} {} ?ts) = [4, 1, 3, 2]"
    by code_simp
  from reconcile_fallback [OF ne none] ids show ?thesis by simp
qed

section \<open>Order of the reconciled tracks\<close>

lemma album_group_snoc:
  "album_group db (ts @ [t]) k =
     (if n_album db t = k then insert (popularity_or_0 t) (album_group db ts k)
      else album_group db ts k)"
  by (simp add: album_group_def)

lemma album_group_empty: "album_group db ts k = {} \<longleftrightarrow> k \<notin> set (map (n_album db) ts)"
  by (auto simp: album_group_def filter_empty_conv)

lemma album_pops_lookup:
  "map_of (album_pops db ts) k =
     (if album_group db ts k = {} then None else Some (Max (album_group db ts k)))"
proof (induction ts arbitrary: k rule: rev_induct)
  case Nil
  then show ?case by (simp add: album_pops_def album_group_def)
next
  case (snoc t ts)
  let ?d = "album_pops db ts"
  have d: "album_pops db (ts @ [t]) = album_pops_step db ?d t"
    by (simp add: album_pops_def)
  have fin: "finite (album_group db ts k')" for k'
    by (simp add: album_group_def)
  show ?case
  proof (cases "n_album db t = k")
    case False
    have "map_of (album_pops_step db ?d t) k = map_of ?d k"
      using False
      by (simp add: album_pops_step_def Let_def map_of_dict_set split: option.splits)
    then show ?thesis
      using False snoc.IH [of k] by (simp add: d album_group_snoc)
  next
    case True
    show ?thesis
    proof (cases "album_group db ts k = {}")
      case e: True
      then have "map_of ?d k = None" using snoc.IH [of k] by simp
      then have "map_of (album_pops_step db ?d t) k = Some (popularity_or_0 t)"
        using True by (simp add: album_pops_step_def Let_def map_of_dict_set)
      then show ?thesis
        using True e by (simp add: d album_group_snoc)
    next
      case ne: False
      then have m: "map_of ?d k = Some (Max (album_group db ts k))"
        using snoc.IH [of k] by simp
      have "map_of (album_pops_step db ?d t) k
              = Some (max (popularity_or_0 t) (Max (album_group db ts k)))"
        using True m by (simp add: album_pops_step_def Let_def map_of_dict_set max_def)
      moreover have "Max (insert (popularity_or_0 t) (album_group db ts k))
              = max (popularity_or_0 t) (Max (album_group db ts k))"
        using fin ne by (rule Max_insert)
      ultimately show ?thesis
        using True by (simp add: d album_group_snoc)
    qed
  qed
qed

lemma album_pops_get:
  assumes "x \<in> set ts"
  shows "dict_get_0 (album_pops db ts) (n_album db x) = album_max db ts (n_album db x)"
proof -
  have "album_group db ts (n_album db x) \<noteq> {}"
    using assms by (simp add: album_group_empty)
  then have "dict_get_0 (album_pops db ts) (n_album db x) = Max (album_group db ts (n_album db x))"
    by (simp add: dict_get_0_def album_pops_lookup)
  then show ?thesis
    by (simp add: album_max_def album_group_def)
qed

lemma album_max_cong: "set ts = set ts' \<Longrightarrow> album_max db ts = album_max db ts'"
  by (simp add: album_max_def fun_eq_iff)

lemma track_sort_key_spec:
  assumes "x \<in> set ts"
  shows "track_sort_key db (album_pops db ts) x = sort_key_spec db ts x"
  using album_pops_get [OF assms]
  by (simp add: track_sort_key_def sort_key_spec_def track_number_or_0_def)

lemma sorted_tracks_sorted:
  "sorted (map (sort_key_spec db (sorted_tracks db ts)) (sorted_tracks db ts))"
proof -
  let ?out = "sorted_tracks db ts"
  have s: "set ?out = set ts" by (simp add: sorted_tracks_def)
  have "sorted (map (track_sort_key db (album_pops db ts)) ?out)"
    by (simp add: sorted_tracks_def)
  moreover have "map (track_sort_key db (album_pops db ts)) ?out = map (sort_key_spec db ts) ?out"
    using s by (simp add: track_sort_key_spec)
  moreover have "sort_key_spec db ts = sort_key_spec db ?out"
    using album_max_cong [OF s [symmetric]] by (simp add: sort_key_spec_def fun_eq_iff)
  ultimately show ?thesis by simp
qed

lemma sorted_precedes:
  fixes f :: "'a \<Rightarrow> int \<times> ustr \<times> int"
  assumes "sorted (map f xs)" and "i < length xs" and "j < length xs"
    and "fst (f (xs ! i)) < fst (f (xs ! j))"
  shows "i < j"
proof (rule ccontr)
  assume "\<not> i < j"
  then have "j \<le> i" by simp
  then have "map f xs ! j \<le> map f xs ! i"
    using assms(1,2) by (simp add: sorted_iff_nth_mono)
  then have "f (xs ! j) \<le> f (xs ! i)"
    using assms(2,3) by simp
  then have "fst (f (xs ! j)) \<le> fst (f (xs ! i))"
    by (cases "f (xs ! j)"; cases "f (xs ! i)") (auto simp: less_eq_prod_def)
  with assms(4) show False by simp
qed

text \<open>
  C4. The sequence that reconciliation returns is a reordering of \<open>final_tracks\<close> that is
  sorted by the key (minus the highest popularity on the track's normalised album, the
  normalised album title, the track number or 0), compared lexicographically. Hence a track
  whose album has the higher maximum (80 against 40, say) comes before every track of the
  other album, whatever the order of the input.
\<close>

theorem reconcile_sorted:
  "sorted (map (sort_key_spec db (reconcile db ia it strict)) (reconcile db ia it strict))
   \<and> mset (reconcile db ia it strict) = mset (final_tracks db ia it strict)
   \<and> (\<forall>i j. i < length (reconcile db ia it strict) \<and> j < length (reconcile db ia it strict)
        \<and> album_max db (reconcile db ia it strict) (n_album db (reconcile db ia it strict ! j))
            < album_max db (reconcile db ia it strict) (n_album db (reconcile db ia it strict ! i))
        \<longrightarrow> i < j)"
proof -
  let ?out = "reconcile db ia it strict"
  have s: "sorted (map (sort_key_spec db ?out) ?out)"
    unfolding reconcile_def by (rule sorted_tracks_sorted)
  have m: "mset ?out = mset (final_tracks db ia it strict)"
    by (simp add: reconcile_def sorted_tracks_def)
  have p: "i < j" if "i < length ?out" "j < length ?out"
    "album_max db ?out (n_album db (?out ! j)) < album_max db ?out (n_album db (?out ! i))" for i j
    using sorted_precedes [OF s that(1,2)] that(3) by (simp add: sort_key_spec_def)
  show ?thesis using s m p by blast
qed

theorem reconcile_sorted_witness:
  "reconcile ascii_db {} {} [sample_track 1 ''One'' (sample_album 11 ''Minor'') ''LOSSLESS'' (Some 40) (Some 2),
      sample_track 2 ''Two'' (sample_album 12 ''Major'') ''LOSSLESS'' (Some 80) (Some 2),
      sample_track 3 ''Three'' (sample_album 12 ''Major'') ''LOSSLESS'' (Some 10) (Some 1),
      sample_track 4 ''Four'' (sample_album 11 ''Minor'') ''LOSSLESS'' (Some 4) None] = [sample_track 3 ''Three'' (sample_album 12 ''Major'') ''LOSSLESS'' (Some 10) (Some 1),
      sample_track 2 ''Two'' (sample_album 12 ''Major'') ''LOSSLESS'' (Some 80) (Some 2),
      sample_track 1 ''One'' (sample_album 11 ''Minor'') ''LOSSLESS'' (Some 40) (Some 2)]
   \<and> album_max ascii_db (reconcile ascii_db {} {} [sample_track 1 ''One'' (sample_album 11 ''Minor'') ''LOSSLESS'' (Some 40) (Some 2),
      sample_track 2 ''Two'' (sample_album 12 ''Major'') ''LOSSLESS'' (Some 80) (Some 2),
      sample_track 3 ''Three'' (sample_album 12 ''Major'') ''LOSSLESS'' (Some 10) (Some 1),
      sample_track 4 ''Four'' (sample_album 11 ''Minor'') ''LOSSLESS'' (Some 4) None]) (n_album ascii_db (reconcile ascii_db {} {} [sample_track 1 ''One'' (sample_album 11 ''Minor'') ''LOSSLESS'' (Some 40) (Some 2),
      sample_track 2 ''Two'' (sample_album 12 ''Major'') ''LOSSLESS'' (Some 80) (Some 2),
      sample_track 3 ''Three'' (sample_album 12 ''Major'') ''LOSSLESS'' (Some 10) (Some 1),
      sample_track 4 ''Four'' (sample_album 11 ''Minor'') ''LOSSLESS'' (Some 4) None] ! 2)) = 40
   \<and> album_max ascii_db (reconcile ascii_db {} {} [sample_track 1 ''One'' (sample_album 11 ''Minor'') ''LOSSLESS'' (Some 40) (Some 2),
      sample_track 2 ''Two'' (sample_album 12 ''Major'') ''LOSSLESS'' (Some 80) (Some 2),
      sample_track 3 ''Three'' (sample_album 12 ''Major'') ''LOSSLESS'' (Some 10) (Some 1),
      sample_track 4 ''Four'' (sample_album 11 ''Minor'') ''LOSSLESS'' (Some 4) None]) (n_album ascii_db (reconcile ascii_db {} {} [sample_track 1 ''One'' (sample_album 11 ''Minor'') ''LOSSLESS'' (Some 40) (Some 2),
      sample_track 2 ''Two'' (sample_album 12 ''Major'') ''LOSSLESS'' (Some 80) (Some 2),
      sample_track 3 ''Three'' (sample_album 12 ''Major'') ''LOSSLESS'' (Some 10) (Some 1),
      sample_track 4 ''Four'' (sample_album 11 ''Minor'') ''LOSSLESS'' (Some 4) None] ! 0)) = 80
   \<and> sorted (map (sort_key_spec ascii_db (reconcile ascii_db {} {} [sample_track 1 ''One'' (sample_album 11 ''Minor'') ''LOSSLESS'' (Some 40) (Some 2),
      sample_track 2 ''Two'' (sample_album 12 ''Major'') ''LOSSLESS'' (Some 80) (Some 2),
      sample_track 3 ''Three'' (sample_album 12 ''Major'') ''LOSSLESS'' (Some 10) (Some 1),
      sample_track 4 ''Four'' (sample_album 11 ''Minor'') ''LOSSLESS'' (Some 4) None])) (reconcile ascii_db {} {} [sample_track 1 ''One'' (sample_album 11 ''Minor'') ''LOSSLESS'' (Some 40) (Some 2),
      sample_track 2 ''Two'' (sample_album 12 ''Major'') ''LOSSLESS'' (Some 80) (Some 2),
      sample_track 3 ''Three'' (sample_album 12 ''Major'') ''LOSSLESS'' (Some 10) (Some 1),
      sample_track 4 ''Four'' (sample_album 11 ''Minor'') ''LOSSLESS'' (Some 4) None]))"
proof -
  let ?ts = "[sample_track 1 ''One'' (sample_album 11 ''Minor'') ''LOSSLESS'' (Some 40) (Some 2),
      sample_track 2 ''Two'' (sample_album 12 ''Major'') ''LOSSLESS'' (Some 80) (Some 2),
      sample_track 3 ''Three'' (sample_album 12 ''Major'') ''LOSSLESS'' (Some 10) (Some 1),
      sample_track 4 ''Four'' (sample_album 11 ''Minor'') ''LOSSLESS'' (Some 4) None]"
  have e: "reconcile ascii_db {} {} ?ts = [sample_track 3 ''Three'' (sample_album 12 ''Major'') ''LOSSLESS'' (Some 10) (Some 1),
      sample_track 2 ''Two'' (sample_album 12 ''Major'') ''LOSSLESS'' (Some 80) (Some 2),
      sample_track 1 ''One'' (sample_album 11 ''Minor'') ''LOSSLESS'' (Some 40) (Some 2)]"
    by code_simp
  have a: "album_max ascii_db (reconcile ascii_db {} {} ?ts) (n_album ascii_db (reconcile ascii_db {} {} ?ts ! 2)) = 40"
    by code_simp
  have b: "album_max ascii_db (reconcile ascii_db {} {} ?ts) (n_album ascii_db (reconcile ascii_db {} {} ?ts ! 0)) = 80"
    by code_simp
  from reconcile_sorted [of ascii_db "{}" "{}" ?ts]
  have "sorted (map (sort_key_spec ascii_db (reconcile ascii_db {} {} ?ts)) (reconcile ascii_db {} {} ?ts))"
    by (elim conjE)
  with e a b show ?thesis by (simp only: simp_thms)
qed

section \<open>The artist-identity filter and the records it reads\<close>

lemma strict_step_fresh:
  "t_artists t = [] \<or> t_artist t = None \<Longrightarrow> fst (strict_step db artist t) = t"
  by (auto simp: strict_step_def list_append_def split: option.splits)

lemma strict_step_alias:
  "t_artists t \<noteq> [] \<Longrightarrow> t_artist t = Some a \<Longrightarrow>
     fst (strict_step db artist t) = t\<lparr>t_artists := t_artists t @ [a]\<rparr>"
  by (simp add: strict_step_def list_append_def)

text \<open>
  C10. The claim says the filter leaves every record as it was. On a record whose
  \<open>artists\<close> list holds one artist, who is also its primary artist, the loop leaves the
  record with that artist twice in the list: \<open>t.artists or []\<close> is the record's own list,
  and the append writes to it.
\<close>

theorem strict_filter_appends_primary_artist:
  "fst (strict_filter ascii_db (sample_artist 7 ''Ana'')
      [sample_track 1 ''One'' (sample_album 11 ''Minor'') ''LOSSLESS'' (Some 40) (Some 2)])
   = [(sample_track 1 ''One'' (sample_album 11 ''Minor'') ''LOSSLESS'' (Some 40) (Some 2))
        \<lparr>t_artists := [sample_artist 7 ''Ana'', sample_artist 7 ''Ana'']\<rparr>]
   \<and> t_artists (sample_track 1 ''One'' (sample_album 11 ''Minor'') ''LOSSLESS'' (Some 40) (Some 2))
       = [sample_artist 7 ''Ana'']"
  by (simp add: strict_step_def list_append_def list_read_def sample_track_def)

section \<open>Expansion of the segment timeline\<close>

lemma expand_step_ok:
  "entry_ok s \<Longrightarrow>
     expand_step segments s
       = Inr (segments @ replicate (nat (entry_repeat s + 1)) (entry_duration s))"
  by (cases "s_d s"; cases "s_r s")
    (simp_all add: entry_ok_def expand_step_def entry_repeat_def entry_duration_def)

lemma expand_loop_ok:
  "list_all entry_ok ss \<Longrightarrow>
     expand_loop segments ss
       = Inr (segments @ concat (map (\<lambda>s. replicate (nat (entry_repeat s + 1)) (entry_duration s)) ss))"
  by (induction ss arbitrary: segments) (simp_all add: expand_step_ok)

text \<open>
  C5. On a timeline whose entries \<open>int\<close> accepts, the expansion is the concatenation, in
  entry order, of one run per entry: the duration \<open>d\<close> of the entry, \<open>r + 1\<close> times, where
  \<open>r\<close> is the repeat count and 0 when the attribute is absent. (The count is \<open>nat (r + 1)\<close>:
  list repetition by a number below 1 is the empty list.) The entries d=4 r=2 and d=5 give
  4, 4, 4, 5.
\<close>

theorem expand_timeline_repeats:
  "list_all entry_ok ss \<Longrightarrow>
     expand_timeline ss
       = Inr (concat (map (\<lambda>s. replicate (nat (entry_repeat s + 1)) (entry_duration s)) ss))"
  using expand_loop_ok [of ss "[]"] by (simp add: expand_timeline_def)

theorem expand_timeline_repeats_witness:
  "list_all entry_ok [\<lparr>s_d = Num 4, s_r = Num 2\<rparr>, \<lparr>s_d = Num 5, s_r = Missing\<rparr>]
   \<and> expand_timeline [\<lparr>s_d = Num 4, s_r = Num 2\<rparr>, \<lparr>s_d = Num 5, s_r = Missing\<rparr>]
       = Inr [4, 4, 4, 5]
   \<and> length [4, 4, 4, 5 :: int] = 4"
proof -
  have ok: "list_all entry_ok [\<lparr>s_d = Num 4, s_r = Num 2\<rparr>, \<lparr>s_d = Num 5, s_r = Missing\<rparr>]"
    by (simp add: entry_ok_def)
  have n: "nat 3 = Suc (Suc (Suc 0))" "nat 1 = Suc 0" by simp_all
  show ?thesis
    using ok expand_timeline_repeats [OF ok]
    by (simp add: entry_repeat_def entry_duration_def numeral_3_eq_3)
qed

section \<open>Paths of the temporary files\<close>

lemma str_nat_nonempty: "str_nat n \<noteq> []"
  by (subst str_nat.simps) simp

lemma str_nat_last: "last (str_nat n) = 48 + n mod 10"
  by (subst str_nat.simps) simp

lemma str_nat_butlast: "10 \<le> n \<Longrightarrow> butlast (str_nat n) = str_nat (n div 10)"
  by (subst str_nat.simps) (simp add: butlast_append)

lemma str_nat_small: "n < 10 \<Longrightarrow> str_nat n = [48 + n]"
  by (subst str_nat.simps) simp

lemma str_nat_length: "10 \<le> n \<Longrightarrow> 2 \<le> length (str_nat n)"
proof -
  assume "10 \<le> n"
  then have "str_nat n = str_nat (n div 10) @ [48 + n mod 10]"
    by (subst str_nat.simps) simp
  moreover have "1 \<le> length (str_nat (n div 10))"
    using str_nat_nonempty [of "n div 10"] by (cases "str_nat (n div 10)") simp_all
  ultimately show ?thesis by simp
qed

lemma str_nat_inj: "str_nat n = str_nat m \<Longrightarrow> n = m"
proof (induction n arbitrary: m rule: str_nat.induct)
  case (1 n)
  from "1.prems" have l: "n mod 10 = m mod 10"
    using str_nat_last [of n] str_nat_last [of m] by simp
  show ?case
  proof (cases "n < 10")
    case True
    then have "length (str_nat m) = 1" using "1.prems" [symmetric] by (simp add: str_nat_small)
    then have "m < 10" using str_nat_length [of m] by (cases "m < 10") simp_all
    with True l show ?thesis by simp
  next
    case False
    then have "2 \<le> length (str_nat m)" using "1.prems" str_nat_length [of n] by simp
    then have m: "\<not> m < 10" using str_nat_small [of m] by (cases "m < 10") simp_all
    have "str_nat (n div 10) = str_nat (m div 10)"
      using "1.prems" False m str_nat_butlast [of n] str_nat_butlast [of m] by simp
    then have "n div 10 = m div 10" using "1.IH" [OF False] by blast
    with l show ?thesis by (metis div_mult_mod_eq)
  qed
qed

lemma str_nat_hd: "hd (str_nat n) \<noteq> 47"
proof (induction n rule: str_nat.induct)
  case (1 n)
  show ?case
  proof (cases "n < 10")
    case True
    then show ?thesis by (simp add: str_nat_small)
  next
    case False
    then have "str_nat n = str_nat (n div 10) @ [48 + n mod 10]"
      by (subst str_nat.simps) simp
    then show ?thesis using "1.IH" [OF False] str_nat_nonempty [of "n div 10"] by simp
  qed
qed

lemma str_int_hd: "str_int i \<noteq> [] \<and> hd (str_int i) \<noteq> 47"
  by (simp add: str_int_def str_nat_nonempty str_nat_hd)

lemma path_join_prefix: "b \<noteq> [] \<Longrightarrow> hd b \<noteq> 47 \<Longrightarrow> path_join a b = dir_prefix a @ b"
  by (cases b) (simp_all add: path_join_def dir_prefix_def)

lemma init_path_eq:
  "init_path od md = dir_prefix od @ str_int (t_id md) @ u ''_init.m4s''"
  using str_int_hd [of "t_id md"]
  by (simp add: init_path_def path_join_prefix)

lemma seg_path_eq:
  "seg_path od md i = dir_prefix od @ str_int (t_id md) @ u ''_seg_'' @ str_nat i @ u ''.m4s''"
  using str_int_hd [of "t_id md"]
  by (simp add: seg_path_def path_join_prefix)

lemma seg_path_inj: "seg_path od md i = seg_path od md j \<Longrightarrow> i = j"
  by (simp add: seg_path_eq str_nat_inj)

lemma init_path_not_seg: "init_path od md \<noteq> seg_path od md i"
  by (simp add: init_path_eq seg_path_eq u_def)

lemma sanitize_flac:
  "sanitize_filename (x @ u ''.flac'') = sanitize_filename x @ u ''.flac''"
  by (simp add: sanitize_filename_def u_def)

lemma sanitize_no_slash: "47 \<notin> set (sanitize_filename x)"
  by (simp add: sanitize_filename_def)

lemma out_path_last: "last (out_path_of od name title) = 99"
proof -
  let ?f = "sanitize_filename (name @ u '' - '' @ title @ u ''.flac'')"
  have f: "?f = sanitize_filename (name @ u '' - '' @ title) @ u ''.flac''"
    using sanitize_flac [of "name @ u '' - '' @ title"] by simp
  then have ne: "?f \<noteq> []" by (simp add: u_def)
  have "hd ?f \<in> set ?f" using ne by simp
  then have "hd ?f \<noteq> 47" using sanitize_no_slash [of "name @ u '' - '' @ title @ u ''.flac''"]
    by metis
  then have "out_path_of od name title = dir_prefix od @ ?f"
    unfolding out_path_of_def using ne by (rule path_join_prefix [rotated])
  then have "out_path_of od name title
      = (dir_prefix od @ sanitize_filename (name @ u '' - '' @ title)) @ u ''.flac''"
    by (simp only: f append_assoc)
  moreover have "last (xs @ u ''.flac'') = 99" for xs :: ustr
    by (simp add: u_def)
  ultimately show ?thesis by (simp only:)
qed

lemma init_path_last: "last (init_path od md) = 115"
  by (simp add: init_path_eq u_def)

lemma seg_path_last: "last (seg_path od md i) = 115"
  by (simp add: seg_path_eq u_def)

lemma out_path_not_temp:
  "out_path_of od name title \<noteq> init_path od md"
  "out_path_of od name title \<noteq> seg_path od md i"
  using out_path_last [of od name title] init_path_last [of od md] seg_path_last [of od md i]
  by auto

section \<open>The files an assembly leaves\<close>

lemma download_file_complete:
  "fetch w url = Complete b \<Longrightarrow> download_file w url dest fs = (Inr (), fs(dest \<mapsto> b))"
  by (simp add: download_file_def)

lemma download_file_success:
  "download_file w url dest fs = (Inr x, fs') \<Longrightarrow> fetch w url = Complete (fetched w url) \<and> fs' = fs(dest \<mapsto> fetched w url)"
  by (auto simp: download_file_def fetched_def split: fetch_result.splits)

lemma written_Cons:
  "written w od md base media (i # is) fs =
     written w od md base media is (fs(seg_path od md i \<mapsto> fetched w (seg_url w base media i)))"
  by (simp add: written_def)

lemma written_snoc:
  "written w od md base media (is @ [i]) fs =
     (written w od md base media is fs)(seg_path od md i \<mapsto> fetched w (seg_url w base media i))"
  by (simp add: written_def)

lemma written_other:
  "p \<notin> seg_path od md ` set is \<Longrightarrow> written w od md base media is fs p = fs p"
  by (induction "is" rule: rev_induct) (simp_all add: written_snoc, simp add: written_def)

lemma written_at:
  "i \<in> set is \<Longrightarrow>
     written w od md base media is fs (seg_path od md i) = Some (fetched w (seg_url w base media i))"
proof (induction "is" rule: rev_induct)
  case Nil
  then show ?case by simp
next
  case (snoc j js)
  show ?case
  proof (cases "seg_path od md i = seg_path od md j")
    case True
    then have "i = j" by (rule seg_path_inj)
    then show ?thesis by (simp add: written_snoc)
  next
    case False
    then have "i \<noteq> j" by auto
    with snoc have "i \<in> set js" by simp
    with snoc.IH False show ?thesis by (simp add: written_snoc)
  qed
qed

lemma fetch_segments_complete:
  "(\<forall>i\<in>set is. fetch w (seg_url w base media i) = Complete (fetched w (seg_url w base media i))) \<Longrightarrow>
     fetch_segments w od md base media is fs
       = (Inr (map (seg_path od md) is), written w od md base media is fs)"
proof (induction "is" arbitrary: fs)
  case Nil
  then show ?case by (simp add: written_def)
next
  case (Cons i "is")
  from Cons.prems
  have c: "fetch w (seg_url w base media i) = Complete (fetched w (seg_url w base media i))"
    by simp
  from Cons.prems have r: "\<forall>i\<in>set is. fetch w (seg_url w base media i)
      = Complete (fetched w (seg_url w base media i))" by simp
  show ?case
    by (simp add: download_file_complete [OF c] Cons.IH [OF r] written_Cons)
qed

lemma fetch_segments_success:
  "fetch_segments w od md base media is fs = (Inr ps, fs') \<Longrightarrow>
     (\<forall>i\<in>set is. fetch w (seg_url w base media i) = Complete (fetched w (seg_url w base media i)))"
proof (induction "is" arbitrary: fs ps fs')
  case Nil
  then show ?case by simp
next
  case (Cons i "is")
  obtain r1 fs1 where d: "download_file w (seg_url w base media i) (seg_path od md i) fs = (r1, fs1)"
    by (cases "download_file w (seg_url w base media i) (seg_path od md i) fs")
  show ?case
  proof (cases r1)
    case (Inl e1)
    with Cons.prems d show ?thesis by simp
  next
    case (Inr x)
    with d have c: "fetch w (seg_url w base media i) = Complete (fetched w (seg_url w base media i))"
      using download_file_success by blast
    obtain r2 fs2 where f: "fetch_segments w od md base media is fs1 = (r2, fs2)"
      by (cases "fetch_segments w od md base media is fs1")
    show ?thesis
    proof (cases r2)
      case (Inl e2)
      with Cons.prems d Inr f show ?thesis by simp
    next
      case r: (Inr qs)
      with f have "\<forall>i\<in>set is. fetch w (seg_url w base media i)
          = Complete (fetched w (seg_url w base media i))"
        using Cons.IH by blast
      with c show ?thesis by simp
    qed
  qed
qed

lemma concat_into_ok:
  "out \<notin> set ps \<Longrightarrow> (\<forall>p\<in>set ps. fs p = Some (g p)) \<Longrightarrow> fs out = Some c \<Longrightarrow>
     concat_into out ps fs = (Inr (), fs(out \<mapsto> c @ concat (map g ps)))"
proof (induction ps arbitrary: fs c)
  case Nil
  then show ?case by (auto simp: fun_eq_iff)
next
  case (Cons p ps)
  let ?fs = "fs(out \<mapsto> c @ g p)"
  from Cons.prems have p: "fs p = Some (g p)" and o: "out \<notin> set ps" and po: "p \<noteq> out"
    by auto
  have q: "\<forall>q\<in>set ps. ?fs q = Some (g q)" using Cons.prems by auto
  have c': "?fs out = Some (c @ g p)" by simp
  have "concat_into out (p # ps) fs = concat_into out ps ?fs"
    using p Cons.prems(3) by simp
  also have "\<dots> = (Inr (), ?fs(out \<mapsto> (c @ g p) @ concat (map g ps)))"
    by (rule Cons.IH [OF o q c'])
  also have "?fs(out \<mapsto> (c @ g p) @ concat (map g ps)) = fs(out \<mapsto> c @ concat (map g (p # ps)))"
    by simp
  finally show ?case .
qed

lemma remove_all_ok:
  "distinct ps \<Longrightarrow> (\<forall>p\<in>set ps. fs p \<noteq> None) \<Longrightarrow>
     remove_all ps fs = (Inr (), (\<lambda>p. if p \<in> set ps then None else fs p))"
proof (induction ps arbitrary: fs)
  case Nil
  then show ?case by simp
next
  case (Cons p ps)
  from Cons.prems obtain b where p: "fs p = Some b" by auto
  have "\<forall>q\<in>set ps. (fs(p := None)) q \<noteq> None" using Cons.prems by auto
  moreover have "distinct ps" using Cons.prems by simp
  ultimately have "remove_all ps (fs(p := None))
      = (Inr (), (\<lambda>q. if q \<in> set ps then None else (fs(p := None)) q))"
    by (rule Cons.IH [rotated])
  then show ?case using p by (auto simp: fun_eq_iff)
qed

lemma temp_paths_distinct: "distinct (temp_paths od md n)"
proof -
  define idx where "idx = [1 ..< n + 1]"
  have "distinct idx" by (simp add: idx_def)
  then have "distinct (map (seg_path od md) idx)"
    by (simp add: distinct_map inj_on_def seg_path_inj)
  moreover have "init_path od md \<notin> set (map (seg_path od md) idx)"
    using init_path_not_seg [of od md] by auto
  ultimately show ?thesis by (simp only: temp_paths_def idx_def [symmetric] distinct.simps simp_thms)
qed

lemma out_not_in_temp_paths: "out_path_of od name title \<notin> set (temp_paths od md n)"
proof -
  define idx where "idx = [1 ..< n + 1]"
  have "out_path_of od name title \<notin> set (init_path od md # map (seg_path od md) idx)"
    using out_path_not_temp [of od name title md] by auto
  then show ?thesis unfolding temp_paths_def idx_def [symmetric] .
qed

lemma assemble_segments_complete:
  assumes ci: "fetch w (urljoin w base init) = Complete ib"
    and cs: "\<forall>i\<in>set [1 ..< length segs + 1].
               fetch w (seg_url w base media i) = Complete (fetched w (seg_url w base media i))"
    and a: "t_artist md = Some a"
  shows "assemble_segments w od md base init media segs fs =
           (Inr (out_path_of od (a_name a) (t_title md)),
            (\<lambda>p. if p \<in> set (temp_paths od md (length segs)) then None
                 else if p = out_path_of od (a_name a) (t_title md)
                   then Some (ib @ concat (map (\<lambda>i. fetched w (seg_url w base media i))
                                             [1 ..< length segs + 1]))
                 else fs p))"
proof -
  define idx where "idx = [1 ..< length segs + 1]"
  define ip where "ip = init_path od md"
  define out where "out = out_path_of od (a_name a) (t_title md)"
  define ps where "ps = temp_paths od md (length segs)"
  define fs1 where "fs1 = fs(ip \<mapsto> ib)"
  define fs2 where "fs2 = written w od md base media idx fs1"
  define fs2' where "fs2' = fs2(out \<mapsto> [])"
  define g where "g = (\<lambda>p. if p = ip then ib else the (fs2 p))"
  define body where "body = ib @ concat (map (\<lambda>i. fetched w (seg_url w base media i)) idx)"
  define fs3 where "fs3 = fs2'(out \<mapsto> body)"
  have ps: "ps = ip # map (seg_path od md) idx"
    by (simp only: ps_def temp_paths_def idx_def ip_def)
  have o_ip: "out \<noteq> ip" and o_sp: "\<And>i. out \<noteq> seg_path od md i"
    using out_path_not_temp [of od "a_name a" "t_title md" md] by (auto simp: out_def ip_def)
  have ip_sp: "\<And>i. ip \<noteq> seg_path od md i"
    using init_path_not_seg [of od md] by (simp add: ip_def)
  have "ip \<notin> seg_path od md ` set idx" using ip_sp by blast
  then have "fs2 ip = fs1 ip" unfolding fs2_def by (rule written_other)
  then have ip_w: "fs2 ip = Some ib" by (simp add: fs1_def)
  have sp_w: "fs2 (seg_path od md i) = Some (fetched w (seg_url w base media i))"
    if "i \<in> set idx" for i
    unfolding fs2_def using that by (rule written_at)
  have d1: "download_file w (urljoin w base init) ip fs = (Inr (), fs1)"
    unfolding fs1_def by (rule download_file_complete [OF ci])
  have cs': "\<forall>i\<in>set idx.
      fetch w (seg_url w base media i) = Complete (fetched w (seg_url w base media i))"
    using cs by (simp only: idx_def)
  have d2: "fetch_segments w od md base media idx fs1 = (Inr (map (seg_path od md) idx), fs2)"
    unfolding fs2_def by (rule fetch_segments_complete [OF cs'])
  have g: "\<forall>p\<in>set ps. fs2' p = Some (g p)"
    using ip_w sp_w o_ip o_sp ip_sp unfolding ps fs2'_def g_def by auto
  have gs: "map g (map (seg_path od md) idx) = map (\<lambda>i. fetched w (seg_url w base media i)) idx"
    using sp_w ip_sp by (auto simp: g_def)
  have gi: "g ip = ib" by (simp add: g_def)
  have gm: "concat (map g ps) = body"
    unfolding ps body_def by (simp only: list.map concat.simps gi gs)
  have o_ps: "out \<notin> set ps"
    unfolding out_def ps_def by (rule out_not_in_temp_paths)
  have "fs2' out = Some []" by (simp add: fs2'_def)
  with o_ps g have "concat_into out ps fs2' = (Inr (), fs2'(out \<mapsto> [] @ concat (map g ps)))"
    by (rule concat_into_ok)
  then have d3: "concat_into out ps fs2' = (Inr (), fs3)"
    by (simp only: gm append_Nil fs3_def)
  have pres: "\<forall>p\<in>set ps. fs3 p \<noteq> None"
    using g o_ps by (auto simp: fs3_def)
  have dist: "distinct ps" unfolding ps_def by (rule temp_paths_distinct)
  have d4: "remove_all ps fs3 = (Inr (), (\<lambda>p. if p \<in> set ps then None else fs3 p))"
    using dist pres by (rule remove_all_ok)
  have fin: "(\<lambda>p. if p \<in> set ps then None else fs3 p)
      = (\<lambda>p. if p \<in> set ps then None else if p = out then Some body else fs p)"
  proof (rule ext)
    fix p
    show "(if p \<in> set ps then None else fs3 p)
        = (if p \<in> set ps then None else if p = out then Some body else fs p)"
    proof (cases "p \<in> set ps \<or> p = out")
      case True
      then show ?thesis by (auto simp: fs3_def)
    next
      case False
      then have n: "p \<notin> seg_path od md ` set idx" and i: "p \<noteq> ip" unfolding ps by auto
      have "fs2 p = fs1 p" unfolding fs2_def using n by (rule written_other)
      with i have "fs2 p = fs p" by (simp add: fs1_def)
      with False show ?thesis by (simp add: fs3_def fs2'_def)
    qed
  qed
  have "assemble_segments w od md base init media segs fs
      = (Inr out, (\<lambda>p. if p \<in> set ps then None else fs3 p))"
    unfolding assemble_segments_def Let_def
    unfolding idx_def [symmetric] ip_def [symmetric] a option.case out_path_of_def [symmetric]
      out_def [symmetric]
    unfolding d1 prod.case sum.case d2 fs2'_def [symmetric] ps [symmetric] d3 d4
    by (rule refl)
  then show ?thesis
    unfolding fin unfolding ps_def out_def body_def idx_def .
qed

lemma assemble_segments_success:
  assumes "assemble_segments w od md base init media segs fs = (Inr out, fs')"
  shows "(\<exists>a. t_artist md = Some a)
       \<and> fetch w (urljoin w base init) = Complete (fetched w (urljoin w base init))
       \<and> (\<forall>i\<in>set [1 ..< length segs + 1].
             fetch w (seg_url w base media i) = Complete (fetched w (seg_url w base media i)))"
proof -
  obtain r1 fs1 where d1: "download_file w (urljoin w base init) (init_path od md) fs = (r1, fs1)"
    by (cases "download_file w (urljoin w base init) (init_path od md) fs")
  obtain r2 fs2 where d2:
    "fetch_segments w od md base media [1 ..< length segs + 1] fs1 = (r2, fs2)"
    by (cases "fetch_segments w od md base media [1 ..< length segs + 1] fs1")
  from assms d1 obtain x where r1: "r1 = Inr x"
    by (cases r1) (simp_all add: assemble_segments_def Let_def)
  from assms d1 r1 d2 obtain ps where r2: "r2 = Inr ps"
    by (cases r2) (simp_all add: assemble_segments_def Let_def del: upt_Suc One_nat_def)
  from assms d1 r1 d2 r2 have a: "\<exists>a. t_artist md = Some a"
    by (cases "t_artist md") (simp_all add: assemble_segments_def Let_def del: upt_Suc One_nat_def)
  from d1 r1 have "fetch w (urljoin w base init) = Complete (fetched w (urljoin w base init))"
    using download_file_success by blast
  moreover from d2 r2 have "\<forall>i\<in>set [1 ..< length segs + 1].
      fetch w (seg_url w base media i) = Complete (fetched w (seg_url w base media i))"
    using fetch_segments_success by blast
  ultimately show ?thesis using a by blast
qed

lemma fetch_segments_refused:
  assumes "\<forall>i\<in>set pre. fetch w (seg_url w base media i) = Complete (fetched w (seg_url w base media i))"
    and "fetch w (seg_url w base media k) = Refused"
  shows "fetch_segments w od md base media (pre @ k # post) fs
           = (Inl RequestException, written w od md base media pre fs)"
  using assms(1)
proof (induction pre arbitrary: fs)
  case Nil
  then show ?case using assms(2) by (simp add: download_file_def written_def)
next
  case (Cons i pre)
  from Cons.prems
  have c: "fetch w (seg_url w base media i) = Complete (fetched w (seg_url w base media i))"
    and r: "\<forall>i\<in>set pre. fetch w (seg_url w base media i)
              = Complete (fetched w (seg_url w base media i))"
    by simp_all
  show ?case
    by (simp add: download_file_complete [OF c] Cons.IH [OF r] written_Cons)
qed

lemma upt_split: "1 \<le> k \<Longrightarrow> k \<le> n \<Longrightarrow> [1 ..< n + 1] = [1 ..< k] @ k # [Suc k ..< n + 1]"
proof -
  assume a: "1 \<le> k" "k \<le> n"
  define d where "d = n + 1 - k"
  have d: "n + 1 = k + d" and "0 < d"
    using a by (simp_all add: d_def)
  have "[1 ..< k + d] = [1 ..< k] @ [k ..< k + d]"
    using a(1) by (rule upt_add_eq_append)
  moreover have "[k ..< k + d] = k # [Suc k ..< k + d]"
    using \<open>0 < d\<close> by (simp add: upt_conv_Cons)
  ultimately show ?thesis unfolding d by (simp only:)
qed

lemma assemble_segments_refused:
  assumes ci: "fetch w (urljoin w base init) = Complete ib"
    and k: "1 \<le> k" "k \<le> length segs"
    and cs: "\<forall>i\<in>set [1 ..< k].
               fetch w (seg_url w base media i) = Complete (fetched w (seg_url w base media i))"
    and rf: "fetch w (seg_url w base media k) = Refused"
  shows "assemble_segments w od md base init media segs fs
           = (Inl RequestException,
              written w od md base media [1 ..< k] (fs(init_path od md \<mapsto> ib)))"
proof -
  have d1: "download_file w (urljoin w base init) (init_path od md) fs
      = (Inr (), fs(init_path od md \<mapsto> ib))"
    by (rule download_file_complete [OF ci])
  have d2: "fetch_segments w od md base media ([1 ..< k] @ k # [Suc k ..< length segs + 1])
        (fs(init_path od md \<mapsto> ib))
      = (Inl RequestException, written w od md base media [1 ..< k] (fs(init_path od md \<mapsto> ib)))"
    by (rule fetch_segments_refused [OF cs rf])
  show ?thesis
    unfolding assemble_segments_def Let_def upt_split [OF k] d1 prod.case sum.case d2
    by (rule refl)
qed

lemma written_keeps_init:
  "written w od md base media is (fs(init_path od md \<mapsto> ib)) (init_path od md) = Some ib"
proof -
  have "init_path od md \<notin> seg_path od md ` set is"
    using init_path_not_seg [of od md] by blast
  from written_other [OF this] show ?thesis by simp
qed

lemma download_dash_view_segmented:
  assumes "mv_representation v" "mv_seg_template v"
    and "mv_initialization v = Some init" "init \<noteq> []"
    and "mv_media v = Some media" "media \<noteq> []"
    and "mv_timeline v = Some ss" "expand_timeline ss = Inr segs"
  shows "download_dash_view w od v md fs
           = assemble_segments w od md (mv_base_url v) init media segs fs"
proof -
  from assms(4) obtain ic it where i: "init = ic # it" by (cases init) auto
  from assms(6) obtain mc mt where m: "media = mc # mt" by (cases media) auto
  show ?thesis
    using assms(1,2,3,5,7,8) unfolding i m
    by (simp add: download_dash_view_def)
qed

lemma download_dash_view_success:
  assumes "download_dash_view w od v md fs = (Inr out, fs')" and "mv_timeline v = Some ss"
  shows "\<exists>init media segs. mv_initialization v = Some init \<and> mv_media v = Some media
           \<and> expand_timeline ss = Inr segs
           \<and> assemble_segments w od md (mv_base_url v) init media segs fs = (Inr out, fs')"
proof -
  from assms(1) have r: "mv_representation v" "mv_seg_template v"
    by (auto simp: download_dash_view_def split: if_splits)
  from assms(1) r obtain ic it mc mt where
    i: "mv_initialization v = Some (ic # it)" and m: "mv_media v = Some (mc # mt)"
    by (cases "mv_initialization v"; cases "mv_media v";
        cases "the (mv_initialization v)"; cases "the (mv_media v)")
      (auto simp: download_dash_view_def)
  from assms r i m obtain segs where e: "expand_timeline ss = Inr segs"
    by (cases "expand_timeline ss") (auto simp: download_dash_view_def)
  from assms r i m e
  have "assemble_segments w od md (mv_base_url v) (ic # it) (mc # mt) segs fs = (Inr out, fs')"
    by (simp add: download_dash_view_def)
  with i m e show ?thesis by blast
qed

lemma sample_parse: "parse_mpd (sample_world second) [120] = Some sample_view"
  by (simp add: sample_world_def)

lemma sample_timeline:
  "mv_timeline sample_view = Some [\<lparr>s_d = Num 4, s_r = Num 1\<rparr>, \<lparr>s_d = Num 5, s_r = Missing\<rparr>]"
  by (simp add: sample_view_def)

lemma sample_expand:
  "expand_timeline [\<lparr>s_d = Num 4, s_r = Num 1\<rparr>, \<lparr>s_d = Num 5, s_r = Missing\<rparr>] = Inr [4, 4, 5]"
  by code_simp

text \<open>
  C6. When the assembly of a segmented manifest succeeds, the fetch of the initialisation
  segment and the fetches of the media segments 1 to N were all complete, and the output
  file holds the bytes of the initialisation segment followed by the bytes of the segments
  1 to N in ascending order, and nothing else.
\<close>

theorem segmented_assembly_bytes:
  assumes "download_dash w od xml md fs = (Inr out, fs')"
    and "parse_mpd w xml = Some v" and "mv_timeline v = Some ss"
  shows "\<exists>init media segs ib sb.
           mv_initialization v = Some init \<and> mv_media v = Some media
           \<and> expand_timeline ss = Inr segs
           \<and> fetch w (urljoin w (mv_base_url v) init) = Complete ib
           \<and> (\<forall>i\<in>set [1 ..< length segs + 1].
                 fetch w (seg_url w (mv_base_url v) media i) = Complete (sb i))
           \<and> fs' out = Some (ib @ concat (map sb [1 ..< length segs + 1]))"
proof -
  from assms(1,2) have "download_dash_view w od v md fs = (Inr out, fs')"
    by (simp add: download_dash_def)
  from download_dash_view_success [OF this assms(3)] obtain init media segs where
    i: "mv_initialization v = Some init" and m: "mv_media v = Some media"
    and e: "expand_timeline ss = Inr segs"
    and a: "assemble_segments w od md (mv_base_url v) init media segs fs = (Inr out, fs')"
    by blast
  let ?base = "mv_base_url v"
  let ?sb = "\<lambda>i. fetched w (seg_url w ?base media i)"
  from assemble_segments_success [OF a] obtain ar where
    ar: "t_artist md = Some ar"
    and ci: "fetch w (urljoin w ?base init) = Complete (fetched w (urljoin w ?base init))"
    and cs: "\<forall>i\<in>set [1 ..< length segs + 1]. fetch w (seg_url w ?base media i) = Complete (?sb i)"
    by blast
  from assemble_segments_complete [OF ci cs ar, of od fs] a
  have o: "out = out_path_of od (a_name ar) (t_title md)"
    and f: "fs' = (\<lambda>p. if p \<in> set (temp_paths od md (length segs)) then None
                 else if p = out_path_of od (a_name ar) (t_title md)
                   then Some (fetched w (urljoin w ?base init) @ concat (map ?sb [1 ..< length segs + 1]))
                 else fs p)"
    by simp_all
  have "fs' out = Some (fetched w (urljoin w ?base init) @ concat (map ?sb [1 ..< length segs + 1]))"
    unfolding f o using out_not_in_temp_paths [of od "a_name ar" "t_title md" md "length segs"]
    by (simp only: if_False if_True refl)
  with i m e ci cs show ?thesis
    apply (rule_tac x = init in exI)
    apply (rule_tac x = media in exI)
    apply (rule_tac x = segs in exI)
    apply (rule_tac x = "fetched w (urljoin w ?base init)" in exI)
    apply (rule_tac x = ?sb in exI)
    apply (intro conjI)
         apply assumption+
    done
qed

theorem segmented_assembly_bytes_witness:
  "fst (download_dash (sample_world (Complete [4, 5])) (u ''o'') [120] sample_metadata Map.empty)
     = Inr (u ''o/Ana - T.flac'')
   \<and> (\<exists>init media segs ib sb.
         mv_initialization sample_view = Some init \<and> mv_media sample_view = Some media
         \<and> expand_timeline [\<lparr>s_d = Num 4, s_r = Num 1\<rparr>, \<lparr>s_d = Num 5, s_r = Missing\<rparr>] = Inr segs
         \<and> fetch (sample_world (Complete [4, 5])) (urljoin (sample_world (Complete [4, 5]))
               (mv_base_url sample_view) init) = Complete ib
         \<and> (\<forall>i\<in>set [1 ..< length segs + 1].
               fetch (sample_world (Complete [4, 5]))
                 (seg_url (sample_world (Complete [4, 5])) (mv_base_url sample_view) media i)
                 = Complete (sb i))
         \<and> snd (download_dash (sample_world (Complete [4, 5])) (u ''o'') [120] sample_metadata
                 Map.empty) (u ''o/Ana - T.flac'')
             = Some (ib @ concat (map sb [1 ..< length segs + 1])))
   \<and> snd (download_dash (sample_world (Complete [4, 5])) (u ''o'') [120] sample_metadata Map.empty)
       (u ''o/Ana - T.flac'') = Some [1, 2, 3, 4, 5, 6]"
proof -
  let ?run = "download_dash (sample_world (Complete [4, 5])) (u ''o'') [120] sample_metadata Map.empty"
  have f: "fst ?run = Inr (u ''o/Ana - T.flac'')"
    by code_simp
  have b: "snd ?run (u ''o/Ana - T.flac'') = Some [1, 2, 3, 4, 5, 6]"
    by code_simp
  have r: "?run = (Inr (u ''o/Ana - T.flac''), snd ?run)"
    using f by (simp add: prod_eq_iff)
  from segmented_assembly_bytes [OF r sample_parse sample_timeline] f b
  show ?thesis by (simp only: simp_thms)
qed

text \<open>
  C1, as the code has it. After a successful assembly none of the temporary files of the
  call exists. When the initialisation segment and the media segments before the \<open>k\<close>-th
  are fetched and the fetch of the \<open>k\<close>-th is refused, the call fails with that error and
  the temporary files written so far are still there: nothing removes them on failure.
\<close>

theorem temporary_files_after_assembly:
  assumes "parse_mpd w xml = Some v" and "mv_timeline v = Some ss"
    and "expand_timeline ss = Inr segs"
  shows "(\<forall>out fs'. download_dash w od xml md fs = (Inr out, fs') \<longrightarrow>
            (\<forall>p\<in>set (temp_paths od md (length segs)). fs' p = None))
       \<and> (\<forall>init media ib k.
            mv_representation v \<and> mv_seg_template v
            \<and> mv_initialization v = Some init \<and> init \<noteq> []
            \<and> mv_media v = Some media \<and> media \<noteq> []
            \<and> fetch w (urljoin w (mv_base_url v) init) = Complete ib
            \<and> 1 \<le> k \<and> k \<le> length segs
            \<and> (\<forall>i\<in>set [1 ..< k]. \<exists>b. fetch w (seg_url w (mv_base_url v) media i) = Complete b)
            \<and> fetch w (seg_url w (mv_base_url v) media k) = Refused
            \<longrightarrow> fst (download_dash w od xml md fs) = Inl RequestException
              \<and> snd (download_dash w od xml md fs) (init_path od md) = Some ib
              \<and> (\<forall>i\<in>set [1 ..< k]. snd (download_dash w od xml md fs) (seg_path od md i)
                     = Some (fetched w (seg_url w (mv_base_url v) media i))))"
proof (intro conjI allI impI)
  fix out fs'
  assume s: "download_dash w od xml md fs = (Inr out, fs')"
  from s assms(1) have "download_dash_view w od v md fs = (Inr out, fs')"
    by (simp add: download_dash_def)
  from download_dash_view_success [OF this assms(2)] assms(3) obtain init media where
    a: "assemble_segments w od md (mv_base_url v) init media segs fs = (Inr out, fs')"
    by auto
  from assemble_segments_success [OF a] obtain ar where
    ar: "t_artist md = Some ar"
    and ci: "fetch w (urljoin w (mv_base_url v) init)
               = Complete (fetched w (urljoin w (mv_base_url v) init))"
    and cs: "\<forall>i\<in>set [1 ..< length segs + 1]. fetch w (seg_url w (mv_base_url v) media i)
               = Complete (fetched w (seg_url w (mv_base_url v) media i))"
    by blast
  from assemble_segments_complete [OF ci cs ar, of od fs] a
  have "fs' = (\<lambda>p. if p \<in> set (temp_paths od md (length segs)) then None
                 else if p = out_path_of od (a_name ar) (t_title md)
                   then Some (fetched w (urljoin w (mv_base_url v) init)
                     @ concat (map (\<lambda>i. fetched w (seg_url w (mv_base_url v) media i))
                         [1 ..< length segs + 1]))
                 else fs p)"
    by simp
  then show "\<forall>p\<in>set (temp_paths od md (length segs)). fs' p = None"
    by (simp only: if_True ball_triv simp_thms) simp
next
  fix init media ib k
  assume h: "mv_representation v \<and> mv_seg_template v
            \<and> mv_initialization v = Some init \<and> init \<noteq> []
            \<and> mv_media v = Some media \<and> media \<noteq> []
            \<and> fetch w (urljoin w (mv_base_url v) init) = Complete ib
            \<and> 1 \<le> k \<and> k \<le> length segs
            \<and> (\<forall>i\<in>set [1 ..< k]. \<exists>b. fetch w (seg_url w (mv_base_url v) media i) = Complete b)
            \<and> fetch w (seg_url w (mv_base_url v) media k) = Refused"
  let ?base = "mv_base_url v"
  from h have cs: "\<forall>i\<in>set [1 ..< k]. fetch w (seg_url w ?base media i)
      = Complete (fetched w (seg_url w ?base media i))"
    by (auto simp: fetched_def)
  from h have ci: "fetch w (urljoin w ?base init) = Complete ib"
    and k: "1 \<le> k" "k \<le> length segs"
    and rf: "fetch w (seg_url w ?base media k) = Refused"
    by simp_all
  have "download_dash w od xml md fs = assemble_segments w od md ?base init media segs fs"
    using h assms download_dash_view_segmented [of v init media ss segs w od md fs]
    by (simp add: download_dash_def)
  then have d: "download_dash w od xml md fs
      = (Inl RequestException, written w od md ?base media [1 ..< k] (fs(init_path od md \<mapsto> ib)))"
    by (simp only: assemble_segments_refused [OF ci k cs rf])
  show "fst (download_dash w od xml md fs) = Inl RequestException"
    by (simp only: d fst_conv)
  show "snd (download_dash w od xml md fs) (init_path od md) = Some ib"
    by (simp only: d snd_conv written_keeps_init)
  show "\<forall>i\<in>set [1 ..< k]. snd (download_dash w od xml md fs) (seg_path od md i)
      = Some (fetched w (seg_url w ?base media i))"
    unfolding d snd_conv using written_at by blast
qed

theorem temporary_files_after_assembly_witness:
  "fst (download_dash (sample_world (Complete [4, 5])) (u ''o'') [120] sample_metadata Map.empty)
     = Inr (u ''o/Ana - T.flac'')
   \<and> snd (download_dash (sample_world (Complete [4, 5])) (u ''o'') [120] sample_metadata Map.empty)
       (init_path (u ''o'') sample_metadata) = None
   \<and> snd (download_dash (sample_world (Complete [4, 5])) (u ''o'') [120] sample_metadata Map.empty)
       (seg_path (u ''o'') sample_metadata 3) = None
   \<and> fetch (sample_world Refused) (seg_url (sample_world Refused) (u ''h/'') (u ''s$Number$'') 2)
       = Refused
   \<and> fst (download_dash (sample_world Refused) (u ''o'') [120] sample_metadata Map.empty)
       = Inl RequestException
   \<and> snd (download_dash (sample_world Refused) (u ''o'') [120] sample_metadata Map.empty)
       (init_path (u ''o'') sample_metadata) = Some [1, 2]
   \<and> snd (download_dash (sample_world Refused) (u ''o'') [120] sample_metadata Map.empty)
       (seg_path (u ''o'') sample_metadata 1) = Some [3]"
proof -
  let ?ok = "download_dash (sample_world (Complete [4, 5])) (u ''o'') [120] sample_metadata Map.empty"
  let ?bad = "download_dash (sample_world Refused) (u ''o'') [120] sample_metadata Map.empty"
  let ?w = "sample_world Refused"
  have f: "fst ?ok = Inr (u ''o/Ana - T.flac'')"
    by code_simp
  have r: "?ok = (Inr (u ''o/Ana - T.flac''), snd ?ok)"
    using f by (simp add: prod_eq_iff)
  have l: "length [4, 4, 5 :: int] = 3" by simp
  from temporary_files_after_assembly [OF sample_parse sample_timeline sample_expand,
      of "Complete [4, 5]" "u ''o''" sample_metadata Map.empty] r
  have a: "\<forall>p\<in>set (temp_paths (u ''o'') sample_metadata 3). snd ?ok p = None"
    unfolding l by blast
  have "init_path (u ''o'') sample_metadata \<in> set (temp_paths (u ''o'') sample_metadata 3)"
    and "seg_path (u ''o'') sample_metadata 3 \<in> set (temp_paths (u ''o'') sample_metadata 3)"
    by (simp_all add: temp_paths_def)
  with a have a1: "snd ?ok (init_path (u ''o'') sample_metadata) = None"
    and a2: "snd ?ok (seg_path (u ''o'') sample_metadata 3) = None"
    by blast+
  have v: "mv_representation sample_view \<and> mv_seg_template sample_view
      \<and> mv_initialization sample_view = Some (u ''i'') \<and> u ''i'' \<noteq> []
      \<and> mv_media sample_view = Some (u ''s$Number$'') \<and> u ''s$Number$'' \<noteq> []"
    by (simp add: sample_view_def u_def)
  have b: "mv_base_url sample_view = u ''h/''" by (simp add: sample_view_def)
  have ci: "fetch ?w (urljoin ?w (u ''h/'') (u ''i'')) = Complete [1, 2]"
    by code_simp
  have c1: "fetch ?w (seg_url ?w (u ''h/'') (u ''s$Number$'') 1) = Complete [3]"
    by code_simp
  have c2: "fetch ?w (seg_url ?w (u ''h/'') (u ''s$Number$'') 2) = Refused"
    by code_simp
  have u12: "[1 ..< 2] = [1 :: nat]" by (simp add: upt_rec)
  have cs: "\<forall>i\<in>set [1 ..< 2]. \<exists>b. fetch ?w (seg_url ?w (u ''h/'') (u ''s$Number$'') i) = Complete b"
    unfolding u12 using c1 by simp
  have k: "(1::nat) \<le> 2 \<and> 2 \<le> length [4, 4, 5 :: int]" by simp
  from temporary_files_after_assembly [OF sample_parse sample_timeline sample_expand,
      of Refused "u ''o''" sample_metadata Map.empty]
  have "fst ?bad = Inl RequestException
      \<and> snd ?bad (init_path (u ''o'') sample_metadata) = Some [1, 2]
      \<and> (\<forall>i\<in>set [1 ..< 2]. snd ?bad (seg_path (u ''o'') sample_metadata i)
            = Some (fetched ?w (seg_url ?w (u ''h/'') (u ''s$Number$'') i)))"
    using v ci cs c2 k unfolding b by blast
  then have b0: "fst ?bad = Inl RequestException"
    and b1: "snd ?bad (init_path (u ''o'') sample_metadata) = Some [1, 2]"
    and b2: "snd ?bad (seg_path (u ''o'') sample_metadata 1) = Some [3]"
    unfolding u12 using c1 by (simp_all add: fetched_def)
  show ?thesis using f a1 a2 c2 b0 b1 b2 by (simp only: simp_thms)
qed

text \<open>
  The claim as stated fails: in the sample world the second segment is refused, the call
  fails, and the initialisation segment and the first segment are left in the directory.
\<close>

theorem segment_failure_leaves_temporary_files:
  "fst (download_dash (sample_world Refused) (u ''o'') [120] sample_metadata Map.empty)
     = Inl RequestException
   \<and> snd (download_dash (sample_world Refused) (u ''o'') [120] sample_metadata Map.empty)
       (u ''o/9_init.m4s'') = Some [1, 2]
   \<and> snd (download_dash (sample_world Refused) (u ''o'') [120] sample_metadata Map.empty)
       (u ''o/9_seg_1.m4s'') = Some [3]"
  by code_simp

section \<open>Errors of the routing\<close>













subsection \<open>What the decoder rejects\<close>











end
